theory Spec2Isabelle
  imports Complex_Main "HOL-Library.Sublist" "HOL-Library.Log_Nat"
begin

section \<open>JavaScript helpers\<close>

text \<open>
  Strings are lists of 8-bit characters; a token list (\<open>string[]\<close>) is a \<open>string list\<close>.
  \<open>Array.prototype.slice(start, end)\<close> with its relative (negative) indices and clipping.
\<close>

definition slice :: "int \<Rightarrow> int \<Rightarrow> 'a list \<Rightarrow> 'a list" where
  "slice start stop xs =
     (let n = int (length xs);
          from = (if start < 0 then max (n + start) 0 else min start n);
          upto = (if stop < 0 then max (n + stop) 0 else min stop n)
      in take (nat (upto - from)) (drop (nat from) xs))"

text \<open>\<open>xs.slice(start)\<close>: the end defaults to the length.\<close>

definition sliceFrom :: "int \<Rightarrow> 'a list \<Rightarrow> 'a list" where
  "sliceFrom start xs = slice start (int (length xs)) xs"

text \<open>\<open>xs[i]\<close>: \<open>undefined\<close> outside the array.\<close>

definition elemAt :: "'a list \<Rightarrow> nat \<Rightarrow> 'a option" where
  "elemAt xs i = (if i < length xs then Some (xs ! i) else None)"

definition startsWith :: "string \<Rightarrow> string \<Rightarrow> bool" where
  "startsWith s p = (take (length p) s = p)"

definition endsWith :: "string \<Rightarrow> string \<Rightarrow> bool" where
  "endsWith s p = (length p \<le> length s \<and> drop (length s - length p) s = p)"

text \<open>\<open>join("")\<close> of a token list.\<close>

definition joinWords :: "string list \<Rightarrow> string" where
  "joinWords ws = concat ws"

text \<open>The character classes of the regular expressions, on the 8-bit range.\<close>

definition isSpaceChar :: "char \<Rightarrow> bool" where
  "isSpaceChar c = (c \<in> set [CHR '' '', CHR 0x09, CHR 0x0A, CHR 0x0B, CHR 0x0C, CHR 0x0D, CHR 0xA0])"

definition isUpperChar :: "char \<Rightarrow> bool" where
  "isUpperChar c = (let n = (of_char c :: nat) in 65 \<le> n \<and> n \<le> 90)"

definition isLowerChar :: "char \<Rightarrow> bool" where
  "isLowerChar c = (let n = (of_char c :: nat) in 97 \<le> n \<and> n \<le> 122)"

definition isDigitChar :: "char \<Rightarrow> bool" where
  "isDigitChar c = (let n = (of_char c :: nat) in 48 \<le> n \<and> n \<le> 57)"

definition isLetterChar :: "char \<Rightarrow> bool" where
  "isLetterChar c = (isUpperChar c \<or> isLowerChar c)"

text \<open>
  \<open>String.prototype.toLowerCase\<close> on the 8-bit range: \<open>A\<close> to \<open>Z\<close> and the capitals of the
  upper half (\<open>U+00C0\<close> to \<open>U+00DE\<close>, the multiplication sign \<open>U+00D7\<close> apart) move up by 32.
\<close>

definition toLowerChar :: "char \<Rightarrow> char" where
  "toLowerChar c =
     (let n = (of_char c :: nat)
      in if (65 \<le> n \<and> n \<le> 90) \<or> (192 \<le> n \<and> n \<le> 222 \<and> n \<noteq> 215) then char_of (n + 32) else c)"

definition toLowerCase :: "string \<Rightarrow> string" where
  "toLowerCase s = map toLowerChar s"

section \<open>Double-precision arithmetic\<close>

text \<open>
  JavaScript numbers are IEEE-754 doubles. Token counts and character lengths are integers
  far below \<open>2^53\<close> and are exact; the product in \<open>removeOrphans\<close> and the quotient and
  the product in \<open>scoreForMatch\<close> are rounded to the nearest double (53 significant bits, ties to even). \<open>toDouble\<close> is that
  rounding, on the normal range; \<open>Math_round\<close> rounds to the nearest integer, halves up.
\<close>

definition roundHalfEven :: "rat \<Rightarrow> int" where
  "roundHalfEven r =
     (let f = \<lfloor>r\<rfloor>; d = r - of_int f
      in if d < 1 / 2 then f else if d > 1 / 2 then f + 1 else if even f then f else f + 1)"

definition expo2 :: "rat \<Rightarrow> int" where
  "expo2 q =
     (let a = fst (quotient_of q); b = snd (quotient_of q); k = bitlen a - bitlen b
      in if q < 2 powi k then k - 1 else k)"

definition toDouble :: "rat \<Rightarrow> rat" where
  "toDouble q =
     (if q = 0 then 0
      else (let e = expo2 q; u = 2 powi (e - 52) in of_int (roundHalfEven (q / u)) * u))"

definition Math_round :: "rat \<Rightarrow> int" where
  "Math_round x = \<lfloor>x + 1 / 2\<rfloor>"

section \<open>Utils.ts\<close>

definition specialCaseWordTags :: "string list" where
  "specialCaseWordTags = [''<img'']"

text \<open>
  \<open>tagRegex = /^\s*<\/?[^>]+>\s*$/\<close>: leading white space, \<open><\<close>, at least one
  character other than \<open>>\<close> (the optional slash is one of them when nothing else is),
  the first \<open>>\<close>, and only white space after it.
\<close>

definition tagRegex_test :: "string \<Rightarrow> bool" where
  "tagRegex_test item =
     (case dropWhile isSpaceChar item of
        [] \<Rightarrow> False
      | c # rest \<Rightarrow>
          c = CHR ''<'' \<and>
          (let inner = takeWhile (\<lambda>x. x \<noteq> CHR ''>'') rest;
               after = dropWhile (\<lambda>x. x \<noteq> CHR ''>'') rest
           in inner \<noteq> [] \<and>
              (case after of [] \<Rightarrow> False | _ # trail \<Rightarrow> list_all isSpaceChar trail)))"

definition isTag :: "string \<Rightarrow> bool" where
  "isTag item =
     (if list_ex (\<lambda>re. startsWith item re) specialCaseWordTags then False
      else tagRegex_test item)"

text \<open>
  \<open>getTagName\<close>: \<open>tag.match(/^<\/?([a-zA-Z][a-zA-Z0-9]*)/i)\<close>, the captured name in
  lower case, or \<open>null\<close>.
\<close>

definition getTagName :: "string \<Rightarrow> string option" where
  "getTagName tag =
     (case tag of
        [] \<Rightarrow> None
      | c # rest \<Rightarrow>
          if c \<noteq> CHR ''<'' then None
          else (let body = (case rest of [] \<Rightarrow> [] | d # more \<Rightarrow> if d = CHR ''/'' then more else rest)
                in case body of
                     [] \<Rightarrow> None
                   | l # _ \<Rightarrow>
                       if isLetterChar l
                       then Some (toLowerCase (takeWhile (\<lambda>x. isLetterChar x \<or> isDigitChar x) body))
                       else None))"

definition blockLevelElements :: "string list" where
  "blockLevelElements =
     [''p'', ''div'', ''ul'', ''ol'', ''li'', ''h1'', ''h2'', ''h3'', ''h4'', ''h5'', ''h6'',
      ''blockquote'', ''pre'', ''table'', ''tr'', ''td'', ''th'', ''thead'', ''tbody'', ''tfoot'',
      ''article'', ''section'', ''aside'', ''header'', ''footer'', ''nav'', ''main'', ''figure'',
      ''figcaption'', ''dl'', ''dt'', ''dd'']"

definition isOpeningTag :: "string \<Rightarrow> bool" where
  "isOpeningTag tag = (isTag tag \<and> \<not> startsWith tag ''</'' \<and> \<not> endsWith tag ''/>'')"

definition isClosingTag :: "string \<Rightarrow> bool" where
  "isClosingTag tag = (isTag tag \<and> startsWith tag ''</'')"

text \<open>\<open>whitespaceRegex = /^(\s|&nbsp;)+$/\<close>: a non-empty sequence of white space characters and \<open>&nbsp;\<close> entities.\<close>

function spaceSeq :: "string \<Rightarrow> bool" where
  "spaceSeq [] = True"
| "spaceSeq (c # cs) =
     (if isSpaceChar c then spaceSeq cs
      else if startsWith (c # cs) ''&nbsp;'' then spaceSeq (drop 6 (c # cs))
      else False)"
  by pat_completeness auto
termination
  by (relation "measure length") auto

definition isWhiteSpace :: "string \<Rightarrow> bool" where
  "isWhiteSpace v = (v \<noteq> [] \<and> spaceSeq v)"

text \<open>
  \<open>stripTagAttributes\<close>: \<open>tagWordRegex = /<[^\s>]+/\<close> finds the first \<open><\<close> that is followed
  by a character other than white space and \<open>>\<close>, and matches through the last such character.
\<close>

definition tagWordMatchAt :: "string \<Rightarrow> string option" where
  "tagWordMatchAt s =
     (case s of
        [] \<Rightarrow> None
      | c # rest \<Rightarrow>
          if c = CHR ''<'' \<and> takeWhile (\<lambda>x. \<not> isSpaceChar x \<and> x \<noteq> CHR ''>'') rest \<noteq> []
          then Some (c # takeWhile (\<lambda>x. \<not> isSpaceChar x \<and> x \<noteq> CHR ''>'') rest)
          else None)"

fun tagWordRegex_exec :: "string \<Rightarrow> string option" where
  "tagWordRegex_exec [] = None"
| "tagWordRegex_exec (c # cs) =
     (case tagWordMatchAt (c # cs) of
        Some m \<Rightarrow> Some m
      | None \<Rightarrow> tagWordRegex_exec cs)"

definition stripTagAttributes :: "string \<Rightarrow> string" where
  "stripTagAttributes word =
     (case tagWordRegex_exec word of Some m \<Rightarrow> m | None \<Rightarrow> []) @
     (if endsWith word ''/>'' then ''/>'' else ''>'')"

section \<open>types.ts\<close>

datatype Action = ActEqual | ActDelete | ActInsert | ActNone | ActReplace

typedecl RegExp

record BlockExpression =
  expRe :: RegExp
  compareBy :: "RegExp option"

record MatchOptions =
  blockSize :: nat
  repeatingWordsAccuracyOpt :: rat
  ignoreWhitespaceDifferences :: bool

record BlockDiffOptions =
  enabled :: bool
  blockElementsOpt :: "string list option"
  equivalentTypesOpt :: "string list list option"

record Options =
  blocksExpression :: "BlockExpression list option"
  blockDiff :: "BlockDiffOptions option"

section \<open>BlockAnalyzer.ts\<close>

record Block =
  tagName :: string
  startIndex :: nat
  endIndex :: nat
  depth :: int

record OpenTag =
  openTagName :: string
  openStartIndex :: nat
  openDepth :: int

text \<open>
  The analyzer's fields: the block element names (a \<open>Set\<close>), and the \<open>Map\<close> from an
  element name to its equivalence group.
\<close>

record BlockAnalyzer =
  blockElements :: "string list"
  equivalentTypes :: "string \<rightharpoonup> string list"

definition addGroup :: "string list \<Rightarrow> (string \<rightharpoonup> string list) \<Rightarrow> (string \<rightharpoonup> string list)" where
  "addGroup grp m = fold (\<lambda>element acc. acc(toLowerCase element \<mapsto> map toLowerCase grp)) grp m"

definition BlockAnalyzer_new :: "BlockDiffOptions option \<Rightarrow> BlockAnalyzer" where
  "BlockAnalyzer_new options =
     \<lparr> blockElements =
         (case options of
            None \<Rightarrow> blockLevelElements
          | Some opt \<Rightarrow> (case blockElementsOpt opt of
                          Some es \<Rightarrow> map toLowerCase es
                        | None \<Rightarrow> blockLevelElements)),
       equivalentTypes =
         (case options of
            None \<Rightarrow> Map.empty
          | Some opt \<Rightarrow> (case equivalentTypesOpt opt of
                          Some groups \<Rightarrow> fold addGroup groups Map.empty
                        | None \<Rightarrow> Map.empty)) \<rparr>"

text \<open>The search of the stack from its top for the nearest entry with the closing tag's name.\<close>

fun findOpening :: "OpenTag list \<Rightarrow> string \<Rightarrow> nat \<Rightarrow> nat option" where
  "findOpening stack name 0 = None"
| "findOpening stack name (Suc j) =
     (if openTagName (stack ! j) = name then Some j else findOpening stack name j)"

text \<open>One iteration of the loop of \<open>findBlocks\<close>, on the token \<open>word\<close> at index \<open>i\<close>.\<close>

definition findBlocks_step ::
  "BlockAnalyzer \<Rightarrow> Block list \<times> OpenTag list \<times> int \<Rightarrow> nat \<Rightarrow> string \<Rightarrow> Block list \<times> OpenTag list \<times> int" where
  "findBlocks_step ba s i word =
     (case s of (blocks, stack, currentDepth) \<Rightarrow>
        if \<not> isTag word then s
        else (case getTagName word of
                None \<Rightarrow> s
              | Some name \<Rightarrow>
                  if name = [] \<or> name \<notin> set (blockElements ba) then s
                  else if isOpeningTag word
                  then (blocks,
                        stack @ [\<lparr> openTagName = name, openStartIndex = i, openDepth = currentDepth \<rparr>],
                        currentDepth + 1)
                  else if isClosingTag word \<and> length stack > 0
                  then (case findOpening stack name (length stack) of
                          None \<Rightarrow> s
                        | Some j \<Rightarrow>
                            (let openingTag = stack ! j;
                                 stack' = take j stack @ drop (Suc j) stack;
                                 currentDepth' = currentDepth - 1
                             in if openDepth openingTag = 0
                                then (blocks @ [\<lparr> tagName = openTagName openingTag,
                                                  startIndex = openStartIndex openingTag,
                                                  endIndex = i,
                                                  depth = openDepth openingTag \<rparr>],
                                      stack', currentDepth')
                                else (blocks, stack', currentDepth')))
                  else s))"

fun findBlocks_loop ::
  "BlockAnalyzer \<Rightarrow> string list \<Rightarrow> nat \<Rightarrow> Block list \<times> OpenTag list \<times> int \<Rightarrow> Block list \<times> OpenTag list \<times> int" where
  "findBlocks_loop ba [] i s = s"
| "findBlocks_loop ba (word # ws) i s = findBlocks_loop ba ws (Suc i) (findBlocks_step ba s i word)"

text \<open>\<open>blocks.sort((a, b) => a.startIndex - b.startIndex)\<close> is a stable sort on the start index.\<close>

definition findBlocks :: "BlockAnalyzer \<Rightarrow> string list \<Rightarrow> Block list" where
  "findBlocks ba ws = sort_key startIndex (fst (findBlocks_loop ba ws 0 ([], [], 0)))"

definition isSameBlockType :: "BlockAnalyzer \<Rightarrow> Block option \<Rightarrow> Block option \<Rightarrow> bool" where
  "isSameBlockType ba block1 block2 =
     (case (block1, block2) of
        (Some b1, Some b2) \<Rightarrow>
          if tagName b1 = tagName b2 then True
          else (case equivalentTypes ba (tagName b1) of
                  Some grp \<Rightarrow> tagName b2 \<in> set grp
                | None \<Rightarrow> False)
      | _ \<Rightarrow> False)"

definition getBlockInnerWords :: "string list \<Rightarrow> Block \<Rightarrow> string list" where
  "getBlockInnerWords ws block = slice (int (startIndex block) + 1) (int (endIndex block)) ws"

section \<open>Match and Operation\<close>

text \<open>
  Modelled from the spec: \<open>Match.ts\<close> and \<open>Operation.ts\<close> are not among the sources. A Match
  is \<open>{startInOld, startInNew, size}\<close> with \<open>endInOld = startInOld + size\<close> and
  \<open>endInNew = startInNew + size\<close>; an Operation is
  \<open>{action, startInOld, endInOld, startInNew, endInNew}\<close>.
\<close>

record Match =
  startInOldM :: nat
  startInNewM :: nat
  sizeM :: nat

definition Match_new :: "nat \<Rightarrow> nat \<Rightarrow> nat \<Rightarrow> Match" where
  "Match_new so sn sz = \<lparr> startInOldM = so, startInNewM = sn, sizeM = sz \<rparr>"

definition endInOldM :: "Match \<Rightarrow> nat" where
  "endInOldM m = startInOldM m + sizeM m"

definition endInNewM :: "Match \<Rightarrow> nat" where
  "endInNewM m = startInNewM m + sizeM m"

record Operation =
  action :: Action
  startInOld :: nat
  endInOld :: nat
  startInNew :: nat
  endInNew :: nat

section \<open>Diff.ts: the HtmlDiff class\<close>

definition MatchGranularityMaximum :: nat where
  "MatchGranularityMaximum = 4"

record HtmlDiffOptions =
  blockDiffH :: "BlockDiffOptions option"

record HtmlDiff =
  content :: "string list"
  newText :: string
  oldText :: string
  specialTagDiffStack :: "string list"
  newWords :: "string list"
  oldWords :: "string list"
  originalWordsInNew :: "(nat \<times> string) list"
  originalWordsInOld :: "(nat \<times> string) list"
  matchGranularity :: nat
  blockExpressions :: "BlockExpression list"
  repeatingWordsAccuracy :: rat
  ignoreWhiteSpaceDifferences :: bool
  orphanMatchThreshold :: rat
  blockDiffOptions :: "BlockDiffOptions option"
  blockAnalyzer :: "BlockAnalyzer option"
  oldBlocks :: "Block list"
  newBlocks :: "Block list"

text \<open>The constructor. \<open>this.blockDiffOptions?.enabled\<close> decides whether an analyzer exists.\<close>

definition HtmlDiff_new :: "string \<Rightarrow> string \<Rightarrow> HtmlDiffOptions option \<Rightarrow> HtmlDiff" where
  "HtmlDiff_new oldT newT options =
     (let bdo = (case options of None \<Rightarrow> None | Some opt \<Rightarrow> blockDiffH opt)
      in \<lparr> content = [],
           newText = newT,
           oldText = oldT,
           specialTagDiffStack = [],
           newWords = [],
           oldWords = [],
           originalWordsInNew = [],
           originalWordsInOld = [],
           matchGranularity = 0,
           blockExpressions = [],
           repeatingWordsAccuracy = 1,
           ignoreWhiteSpaceDifferences = False,
           orphanMatchThreshold = 0,
           blockDiffOptions = bdo,
           blockAnalyzer =
             (case bdo of
                None \<Rightarrow> None
              | Some b \<Rightarrow> if enabled b then Some (BlockAnalyzer_new bdo) else None),
           oldBlocks = [],
           newBlocks = [] \<rparr>)"

definition addBlockExpression :: "BlockExpression \<Rightarrow> HtmlDiff \<Rightarrow> HtmlDiff" where
  "addBlockExpression e st = st\<lparr> blockExpressions := blockExpressions st @ [e] \<rparr>"

text \<open>
  The tokenizer \<open>WordSplitter.convertHtmlToListOfWords\<close> is a parameter of the model: it
  maps a text and the block expressions to the list of pairs of a comparison form and an
  optional original form.
\<close>

type_synonym WordSplitter = "string \<Rightarrow> BlockExpression list \<Rightarrow> (string \<times> string option) list"

text \<open>\<open>el[1] && map.set(idx, el[1])\<close>: an original form is recorded when it is a non-empty string.\<close>

definition originalsOf :: "(string \<times> string option) list \<Rightarrow> (nat \<times> string) list" where
  "originalsOf ws =
     concat (map (\<lambda>(idx, el). case snd el of
                                 None \<Rightarrow> []
                               | Some v \<Rightarrow> if v = [] then [] else [(idx, v)])
                 (zip [0..<length ws] ws))"

definition splitInputsIntoWords :: "WordSplitter \<Rightarrow> HtmlDiff \<Rightarrow> HtmlDiff" where
  "splitInputsIntoWords splitter st =
     (let ws = splitter (oldText st) (blockExpressions st);
          nws = splitter (newText st) (blockExpressions st)
      in st\<lparr> originalWordsInOld := originalWordsInOld st @ originalsOf ws,
              oldWords := map fst ws,
              oldText := [],
              originalWordsInNew := originalWordsInNew st @ originalsOf nws,
              newWords := map fst nws,
              newText := [] \<rparr>)"

subsection \<open>removeOrphans\<close>

definition sumLength :: "string list \<Rightarrow> nat" where
  "sumLength ws = foldl (\<lambda>t n. t + length n) 0 ws"

text \<open>
  The generator, as the list of the matches it yields. \<open>prevM\<close> and \<open>currM\<close> are the loop's
  variables \<open>prev\<close> and \<open>curr\<close> once the first element has been read; \<open>prev\<close> is assigned only on the path
  that compares lengths. The field \<open>orphanMatchThreshold\<close> is a double, so its value is taken
  rounded to one, and the product with the larger distance is rounded to a double.
\<close>

fun removeOrphans_loop :: "HtmlDiff \<Rightarrow> Match \<Rightarrow> Match \<Rightarrow> Match list \<Rightarrow> Match list" where
  "removeOrphans_loop st prevM currM [] = [currM]"
| "removeOrphans_loop st prevM currM (nextM # rest) =
     (if (endInOldM prevM = startInOldM currM \<and> endInNewM prevM = startInNewM currM) \<or>
         (endInOldM currM = startInOldM nextM \<and> endInNewM currM = startInNewM nextM)
      then currM # removeOrphans_loop st prevM nextM rest
      else (let oldDistanceInChars =
                  sumLength (slice (int (endInOldM prevM)) (int (startInOldM nextM)) (oldWords st));
                newDistanceInChars =
                  sumLength (slice (int (endInNewM prevM)) (int (startInNewM nextM)) (newWords st));
                currMatchLengthInChars =
                  sumLength (slice (int (startInNewM currM)) (int (endInNewM currM)) (newWords st))
            in (if of_nat currMatchLengthInChars >
                     toDouble (of_nat (max oldDistanceInChars newDistanceInChars) *
                               toDouble (orphanMatchThreshold st))
                then [currM] else []) @ removeOrphans_loop st currM nextM rest))"

text \<open>
  On an empty array the loop body never runs and the final \<open>yield curr\<close> yields the
  initial \<open>null\<close>, which is \<open>None\<close>.
\<close>

fun removeOrphans :: "HtmlDiff \<Rightarrow> Match list \<Rightarrow> Match option list" where
  "removeOrphans st [] = [None]"
| "removeOrphans st (m # ms) = map Some (removeOrphans_loop st (Match_new 0 0 0) m ms)"

subsection \<open>findMatch, findMatchingBlocks, matchingBlocks\<close>

text \<open>
  \<open>MatchFinder\<close> is a parameter of the model: \<open>new MatchFinder({oldWords, newWords,
  startInOld, endInOld, startInNew, endInNew, options}).findMatch()\<close>, with \<open>None\<close> for \<open>null\<close>.
\<close>

type_synonym MatchFinder =
  "string list \<Rightarrow> string list \<Rightarrow> nat \<Rightarrow> nat \<Rightarrow> nat \<Rightarrow> nat \<Rightarrow> MatchOptions \<Rightarrow> Match option"

fun findMatch_loop :: "MatchFinder \<Rightarrow> HtmlDiff \<Rightarrow> nat \<Rightarrow> nat \<Rightarrow> nat \<Rightarrow> nat \<Rightarrow> nat \<Rightarrow> Match option" where
  "findMatch_loop finder st so eo sn en 0 = None"
| "findMatch_loop finder st so eo sn en (Suc k) =
     (case finder (oldWords st) (newWords st) so eo sn en
             \<lparr> blockSize = Suc k,
               repeatingWordsAccuracyOpt = repeatingWordsAccuracy st,
               ignoreWhitespaceDifferences = ignoreWhiteSpaceDifferences st \<rparr> of
        Some m \<Rightarrow> Some m
      | None \<Rightarrow> findMatch_loop finder st so eo sn en k)"

definition findMatch :: "MatchFinder \<Rightarrow> HtmlDiff \<Rightarrow> nat \<Rightarrow> nat \<Rightarrow> nat \<Rightarrow> nat \<Rightarrow> Match option" where
  "findMatch finder st so eo sn en = findMatch_loop finder st so eo sn en (matchGranularity st)"

text \<open>
  The recursion of \<open>findMatchingBlocks\<close> ends only if the finder's matches lie inside
  their windows, so the model counts the recursion depth down from \<open>fuel\<close>; \<open>None\<close> is a run
  that has not returned within it. The array \<open>matchingBlocks\<close> is threaded through.
\<close>

fun findMatchingBlocks ::
  "nat \<Rightarrow> MatchFinder \<Rightarrow> HtmlDiff \<Rightarrow> nat \<Rightarrow> nat \<Rightarrow> nat \<Rightarrow> nat \<Rightarrow> Match list \<Rightarrow> Match list option" where
  "findMatchingBlocks 0 finder st so eo sn en acc = None"
| "findMatchingBlocks (Suc fuel) finder st so eo sn en acc =
     (case findMatch finder st so eo sn en of
        None \<Rightarrow> Some acc
      | Some m \<Rightarrow>
          (case (if so < startInOldM m \<and> sn < startInNewM m
                 then findMatchingBlocks fuel finder st so (startInOldM m) sn (startInNewM m) acc
                 else Some acc) of
             None \<Rightarrow> None
           | Some acc1 \<Rightarrow>
               if endInOldM m < eo \<and> endInNewM m < en
               then findMatchingBlocks fuel finder st (endInOldM m) eo (endInNewM m) en (acc1 @ [m])
               else Some (acc1 @ [m])))"

definition matchingBlocks :: "nat \<Rightarrow> MatchFinder \<Rightarrow> HtmlDiff \<Rightarrow> Match list option" where
  "matchingBlocks fuel finder st =
     findMatchingBlocks fuel finder st 0 (length (oldWords st)) 0 (length (newWords st)) []"

subsection \<open>operations\<close>

definition gapAction :: "nat \<Rightarrow> nat \<Rightarrow> Match \<Rightarrow> Action" where
  "gapAction positionInOld positionInNew m =
     (let matchStartsAtCurrentPositionInOld = (positionInOld = startInOldM m);
          matchStartsAtCurrentPositionInNew = (positionInNew = startInNewM m)
      in if \<not> matchStartsAtCurrentPositionInOld \<and> \<not> matchStartsAtCurrentPositionInNew then ActReplace
         else if matchStartsAtCurrentPositionInOld \<and> \<not> matchStartsAtCurrentPositionInNew then ActInsert
         else if \<not> matchStartsAtCurrentPositionInOld then ActDelete
         else ActNone)"

fun operations_loop :: "nat \<Rightarrow> nat \<Rightarrow> Match list \<Rightarrow> Operation list" where
  "operations_loop positionInOld positionInNew [] = []"
| "operations_loop positionInOld positionInNew (m # ms) =
     (let act = gapAction positionInOld positionInNew m
      in (if act \<noteq> ActNone
          then [\<lparr> action = act, startInOld = positionInOld, endInOld = startInOldM m,
                  startInNew = positionInNew, endInNew = startInNewM m \<rparr>]
          else []) @
         (if sizeM m \<noteq> 0
          then [\<lparr> action = ActEqual, startInOld = startInOldM m, endInOld = endInOldM m,
                  startInNew = startInNewM m, endInNew = endInNewM m \<rparr>]
          else []) @
         operations_loop (endInOldM m) (endInNewM m) ms)"

text \<open>
  The loop over \<open>matchesWithoutOrphans\<close> reads \<open>match.startInOld\<close>, so a \<open>null\<close> among them
  makes \<open>operations\<close> throw: \<open>None\<close> is a run that throws or has not returned within the fuel.
\<close>

definition operations :: "nat \<Rightarrow> MatchFinder \<Rightarrow> HtmlDiff \<Rightarrow> Operation list option" where
  "operations fuel finder st =
     (case matchingBlocks fuel finder st of
        None \<Rightarrow> None
      | Some matches \<Rightarrow>
          (let matches' = matches @ [Match_new (length (oldWords st)) (length (newWords st)) 0];
               matchesWithoutOrphans = removeOrphans st matches'
           in map_option (operations_loop 0 0) (those matchesWithoutOrphans)))"

subsection \<open>Rendering\<close>

text \<open>
  \<open>consecutiveWhere\<close>: the loop records the last index at which the predicate was true and
  stops at the first token at which it is false.
\<close>

fun consecutiveWhere_loop :: "('a \<Rightarrow> bool) \<Rightarrow> 'a list \<Rightarrow> nat \<Rightarrow> nat option \<Rightarrow> nat option" where
  "consecutiveWhere_loop predicate [] index lastMatchingIndex = lastMatchingIndex"
| "consecutiveWhere_loop predicate (token # rest) index lastMatchingIndex =
     (if predicate token then consecutiveWhere_loop predicate rest (Suc index) (Some index)
      else lastMatchingIndex)"

definition consecutiveWhere :: "nat \<Rightarrow> 'a list \<Rightarrow> ('a \<Rightarrow> bool) \<Rightarrow> 'a list" where
  "consecutiveWhere start contents predicate =
     (let contents' = slice (int start) (int (length contents) + 1) contents
      in case consecutiveWhere_loop predicate contents' 0 None of
           Some lastMatchingIndex \<Rightarrow> slice 0 (int lastMatchingIndex + 1) contents'
         | None \<Rightarrow> [])"

definition markerOpen :: "string \<Rightarrow> string \<Rightarrow> string" where
  \<open>markerOpen tag cssClass = ''<'' @ tag @ '' class="'' @ cssClass @ ''">''\<close>

definition markerClose :: "string \<Rightarrow> string" where
  "markerClose tag = ''</'' @ tag @ ''>''"

lemma slice_nat: "slice (int a) (int b) xs = take (b - a) (drop a xs)"
proof (cases "a \<le> length xs")
  case True
  then show ?thesis
    by (cases "b \<le> length xs") (auto simp: slice_def Let_def min_def nat_diff_distrib')
next
  case False
  then show ?thesis
    by (auto simp: slice_def Let_def min_def)
qed

lemma slice_nat_Suc: "slice (int a) (int b + 1) xs = take (Suc b - a) (drop a xs)"
  using slice_nat [of a "Suc b" xs] by (simp add: add.commute)

lemma slice_zero: "slice 0 (int b) xs = take b xs"
  using slice_nat [of 0 b xs] by simp

lemma slice_zero_Suc: "slice 0 (int b + 1) xs = take (Suc b) xs"
  using slice_nat_Suc [of 0 b xs] by simp

lemma consecutiveWhere_loop_eq:
  "consecutiveWhere_loop P xs i l =
     (if takeWhile P xs = [] then l else Some (i + length (takeWhile P xs) - 1))"
  by (induction xs arbitrary: i l) auto

lemma consecutiveWhere_takeWhile:
  "consecutiveWhere start xs P = takeWhile P (drop start xs)"
proof -
  have len: "length (takeWhile P (drop start xs)) \<le> length (drop start xs)"
    by (rule length_takeWhile_le)
  show ?thesis
  proof (cases "takeWhile P (drop start xs) = []")
    case True
    then show ?thesis
      by (simp add: consecutiveWhere_def slice_nat_Suc consecutiveWhere_loop_eq)
  next
    case False
    then have pos: "0 < length (takeWhile P (drop start xs))" by simp
    have "take (length (takeWhile P (drop start xs))) (drop start xs) = takeWhile P (drop start xs)"
      by (metis append_eq_conv_conj takeWhile_dropWhile_id)
    with False pos show ?thesis
      by (simp add: consecutiveWhere_def slice_nat_Suc slice_zero_Suc consecutiveWhere_loop_eq)
  qed
qed

lemma consecutiveWhere_progress:
  assumes "position < length contents"
    and "consecutiveWhere position contents (\<lambda>x. \<not> P x) = []"
  shows "consecutiveWhere position contents P \<noteq> []"
proof -
  from assms(1) obtain y ys where d: "drop position contents = y # ys"
    by (cases "drop position contents") auto
  with assms(2) show ?thesis
    by (auto simp: consecutiveWhere_takeWhile split: if_splits)
qed

text \<open>
  The loop of \<open>insertTag\<close>, with \<open>position\<close> and \<open>rendering\<close> as its variables: each round
  takes the non-tags at the position, then the tags after them.
\<close>

function insertTag_loop :: "string \<Rightarrow> string \<Rightarrow> string list \<Rightarrow> nat \<Rightarrow> string \<Rightarrow> string" where
  "insertTag_loop tag cssClass contents position rendering =
     (if position \<ge> length contents then rendering
      else (let nonTags = consecutiveWhere position contents (\<lambda>x. \<not> isTag x);
                position1 = position + length nonTags;
                rendering1 = (if length nonTags \<noteq> 0
                              then rendering @ markerOpen tag cssClass @ joinWords nonTags @ markerClose tag
                              else rendering)
            in if position1 \<ge> length contents then rendering1
               else (let tags = consecutiveWhere position1 contents isTag;
                         position2 = position1 + length tags
                     in insertTag_loop tag cssClass contents position2 (rendering1 @ joinWords tags))))"
  by pat_completeness auto
termination
proof (relation "measure (\<lambda>(tag, cssClass, contents, position, rendering). length contents - position)")
  show "wf (measure (\<lambda>(tag, cssClass, contents, position, rendering). length contents - position))"
    by simp
next
  fix tag cssClass :: string and contents :: "string list" and position :: nat
    and rendering :: string and x xa xb xc xd
  assume a: "\<not> length contents \<le> position"
    and x: "x = consecutiveWhere position contents (\<lambda>x. \<not> isTag x)"
    and xa: "xa = position + length x"
    and b: "\<not> length contents \<le> xa"
    and xc: "xc = consecutiveWhere xa contents isTag"
    and xd: "xd = xa + length xc"
  have lt: "position < xd"
  proof (cases "x = []")
    case True
    with a x have "consecutiveWhere position contents isTag \<noteq> []"
      using consecutiveWhere_progress [of position contents isTag] by simp
    with True xa xc xd show ?thesis by simp
  next
    case False
    with xa xd show ?thesis by simp
  qed
  have "length contents - xd < length contents - position"
    using lt a by arith
  then show
    "((tag, cssClass, contents, xd, xb @ joinWords xc), tag, cssClass, contents, position, rendering)
       \<in> measure (\<lambda>(tag, cssClass, contents, position, rendering). length contents - position)"
    by simp
qed

declare insertTag_loop.simps [simp del]

definition insertTag :: "string \<Rightarrow> string \<Rightarrow> string list \<Rightarrow> HtmlDiff \<Rightarrow> HtmlDiff" where
  "insertTag tag cssClass contents st =
     st\<lparr> content := content st @ [insertTag_loop tag cssClass contents 0 []] \<rparr>"

text \<open>\<open>words.filter((s, pos) => pos >= lo && pos < hi)\<close>.\<close>

definition filterByPos :: "nat \<Rightarrow> nat \<Rightarrow> 'a list \<Rightarrow> 'a list" where
  "filterByPos lo hi ws =
     map snd (filter (\<lambda>(pos, s). pos \<ge> lo \<and> pos < hi) (zip [0..<length ws] ws))"

definition processInsertOperation :: "Operation \<Rightarrow> string \<Rightarrow> HtmlDiff \<Rightarrow> HtmlDiff" where
  "processInsertOperation opp cssClass st =
     insertTag ''ins'' cssClass (filterByPos (startInNew opp) (endInNew opp) (newWords st)) st"

definition processDeleteOperation :: "Operation \<Rightarrow> string \<Rightarrow> HtmlDiff \<Rightarrow> HtmlDiff" where
  "processDeleteOperation opp cssClass st =
     insertTag ''del'' cssClass (filterByPos (startInOld opp) (endInOld opp) (oldWords st)) st"

definition processEqualOperation :: "Operation \<Rightarrow> HtmlDiff \<Rightarrow> HtmlDiff" where
  "processEqualOperation opp st =
     st\<lparr> content := content st @ [joinWords (filterByPos (startInNew opp) (endInNew opp) (newWords st))] \<rparr>"

definition shouldUseBlockReplacement :: "HtmlDiff \<Rightarrow> Operation \<Rightarrow> bool" where
  "shouldUseBlockReplacement st opp =
     (case blockAnalyzer st of
        None \<Rightarrow> False
      | Some ba \<Rightarrow>
          (let oldBlocksInRange =
                 filter (\<lambda>b. startIndex b < endInOld opp \<and> endIndex b \<ge> startInOld opp) (oldBlocks st);
               newBlocksInRange =
                 filter (\<lambda>b. startIndex b < endInNew opp \<and> endIndex b \<ge> startInNew opp) (newBlocks st)
           in if length oldBlocksInRange = 0 \<and> length newBlocksInRange = 0 then False
              else if length oldBlocksInRange = 0 \<or> length newBlocksInRange = 0 then True
              else if length oldBlocksInRange \<noteq> length newBlocksInRange then True
              else list_ex (\<lambda>i. \<not> isSameBlockType ba (elemAt oldBlocksInRange i) (elemAt newBlocksInRange i))
                     [0..<length oldBlocksInRange]))"

definition processReplaceOperation :: "Operation \<Rightarrow> HtmlDiff \<Rightarrow> HtmlDiff" where
  "processReplaceOperation opp st =
     (if blockAnalyzer st \<noteq> None \<and> shouldUseBlockReplacement st opp
      then processInsertOperation opp ''diffins'' (processDeleteOperation opp ''diffdel'' st)
      else processInsertOperation opp ''diffmod'' (processDeleteOperation opp ''diffmod'' st))"

definition performOperation :: "Operation \<Rightarrow> HtmlDiff \<Rightarrow> HtmlDiff" where
  "performOperation opp st =
     (case action opp of
        ActEqual \<Rightarrow> processEqualOperation opp st
      | ActDelete \<Rightarrow> processDeleteOperation opp ''diffdel'' st
      | ActInsert \<Rightarrow> processInsertOperation opp ''diffins'' st
      | ActNone \<Rightarrow> st
      | ActReplace \<Rightarrow> processReplaceOperation opp st)"

subsection \<open>Block alignment\<close>

record Anchor =
  oldIndex :: int
  newIndex :: int

record BlockChange =
  oldStart :: nat
  oldEnd :: nat
  newStart :: nat
  newEnd :: nat

definition scoreForMatch :: "HtmlDiff \<Rightarrow> nat list \<Rightarrow> nat list \<Rightarrow> nat \<Rightarrow> nat \<Rightarrow> int" where
  "scoreForMatch st oldLengths newLengths oldIdx newIdx =
     (case (elemAt (oldBlocks st) oldIdx, elemAt (newBlocks st) newIdx, blockAnalyzer st) of
        (Some oldBlock, Some newBlock, Some ba) \<Rightarrow>
          if \<not> isSameBlockType ba (Some oldBlock) (Some newBlock) then 0
          else (let oldLength = oldLengths ! oldIdx;
                    newLength = newLengths ! newIdx;
                    maxLength = max oldLength newLength
                in if maxLength = 0 then 100
                   else (let diffRatio =
                               toDouble (of_int \<bar>int oldLength - int newLength\<bar> / of_nat maxLength)
                         in 100 - Math_round (toDouble (diffRatio * 100))))
      | _ \<Rightarrow> 0)"

text \<open>The table \<open>dp\<close> is filled in place, row \<open>i\<close> from \<open>oldCount - 1\<close> down, column \<open>j\<close> from \<open>newCount - 1\<close> down.\<close>

fun dp_inner :: "(nat \<Rightarrow> nat \<Rightarrow> int) \<Rightarrow> nat \<Rightarrow> nat \<Rightarrow> int list list \<Rightarrow> int list list" where
  "dp_inner score i 0 dp = dp"
| "dp_inner score i (Suc j) dp =
     (let matchScore = score i j;
          skipOld = dp ! (i + 1) ! j;
          skipNew = dp ! i ! (j + 1);
          takeMatch = (if matchScore > 0 then dp ! (i + 1) ! (j + 1) + matchScore else 0)
      in dp_inner score i j (dp[i := (dp ! i)[j := max (max skipOld skipNew) takeMatch]]))"

fun dp_outer :: "(nat \<Rightarrow> nat \<Rightarrow> int) \<Rightarrow> nat \<Rightarrow> nat \<Rightarrow> int list list \<Rightarrow> int list list" where
  "dp_outer score newCount 0 dp = dp"
| "dp_outer score newCount (Suc i) dp = dp_outer score newCount i (dp_inner score i newCount dp)"

definition dp_table :: "(nat \<Rightarrow> nat \<Rightarrow> int) \<Rightarrow> nat \<Rightarrow> nat \<Rightarrow> int list list" where
  "dp_table score oldCount newCount =
     dp_outer score newCount oldCount (replicate (oldCount + 1) (replicate (newCount + 1) 0))"

function backtrack ::
  "(nat \<Rightarrow> nat \<Rightarrow> int) \<Rightarrow> int list list \<Rightarrow> nat \<Rightarrow> nat \<Rightarrow> nat \<Rightarrow> nat \<Rightarrow> Anchor list" where
  "backtrack score dp oldCount newCount i j =
     (if i < oldCount \<and> j < newCount
      then (let matchScore = score i j
            in if matchScore > 0 \<and> dp ! i ! j = dp ! (i + 1) ! (j + 1) + matchScore
               then \<lparr> oldIndex = int i, newIndex = int j \<rparr> #
                    backtrack score dp oldCount newCount (i + 1) (j + 1)
               else if dp ! (i + 1) ! j \<ge> dp ! i ! (j + 1)
               then backtrack score dp oldCount newCount (i + 1) j
               else backtrack score dp oldCount newCount i (j + 1))
      else [])"
  by pat_completeness auto
termination
  by (relation "measure (\<lambda>(score, dp, oldCount, newCount, i, j). (oldCount - i) + (newCount - j))") auto

declare backtrack.simps [simp del]

definition innerLengths :: "string list \<Rightarrow> Block list \<Rightarrow> nat list" where
  "innerLengths ws blocks = map (\<lambda>block. length (joinWords (getBlockInnerWords ws block))) blocks"

definition matchBlocksByTypeSimilarity :: "HtmlDiff \<Rightarrow> Anchor list" where
  "matchBlocksByTypeSimilarity st =
     (case blockAnalyzer st of
        None \<Rightarrow> []
      | Some ba \<Rightarrow>
          (let oldCount = length (oldBlocks st);
               newCount = length (newBlocks st);
               oldLengths = innerLengths (oldWords st) (oldBlocks st);
               newLengths = innerLengths (newWords st) (newBlocks st);
               score = scoreForMatch st oldLengths newLengths;
               dp = dp_table score oldCount newCount
           in backtrack score dp oldCount newCount 0 0))"

definition gapChange :: "BlockAnalyzer \<Rightarrow> HtmlDiff \<Rightarrow> Anchor \<Rightarrow> Anchor \<Rightarrow> BlockChange list" where
  "gapChange ba st current nextA =
     (let oldRange = slice (oldIndex current + 1) (oldIndex nextA) (oldBlocks st);
          newRange = slice (newIndex current + 1) (newIndex nextA) (newBlocks st)
      in if length oldRange = 0 \<or> length newRange = 0 then []
         else (let typesMatch =
                     (length oldRange = length newRange \<and>
                      list_all (\<lambda>j. isSameBlockType ba (elemAt oldRange j) (elemAt newRange j))
                        [0..<length oldRange])
               in if \<not> typesMatch
                  then [\<lparr> oldStart = startIndex (oldRange ! 0),
                          oldEnd = endIndex (oldRange ! (length oldRange - 1)),
                          newStart = startIndex (newRange ! 0),
                          newEnd = endIndex (newRange ! (length newRange - 1)) \<rparr>]
                  else []))"

fun detect_loop :: "BlockAnalyzer \<Rightarrow> HtmlDiff \<Rightarrow> Anchor list \<Rightarrow> BlockChange list" where
  "detect_loop ba st (current # nextA # rest) =
     gapChange ba st current nextA @ detect_loop ba st (nextA # rest)"
| "detect_loop ba st [current] = []"
| "detect_loop ba st [] = []"

definition detectBlockTypeChanges :: "HtmlDiff \<Rightarrow> BlockChange list" where
  "detectBlockTypeChanges st =
     (case blockAnalyzer st of
        None \<Rightarrow> []
      | Some ba \<Rightarrow>
          (let matches = matchBlocksByTypeSimilarity st;
               anchoredMatches =
                 [\<lparr> oldIndex = - 1, newIndex = - 1 \<rparr>] @ matches @
                 [\<lparr> oldIndex = int (length (oldBlocks st)), newIndex = int (length (newBlocks st)) \<rparr>]
           in detect_loop ba st anchoredMatches))"

subsection \<open>diff\<close>

text \<open>\<open>originalWords.forEach((value, key) => words[key] = value)\<close>; every key is an index of the array.\<close>

definition applyOriginals :: "(nat \<times> string) list \<Rightarrow> string list \<Rightarrow> string list" where
  "applyOriginals orig ws = fold (\<lambda>(key, v) acc. acc[key := v]) orig ws"

text \<open>The part of \<open>diff()\<close> after the block analysis: the ordinary word-level diff.\<close>

definition diffOrdinary :: "nat \<Rightarrow> MatchFinder \<Rightarrow> HtmlDiff \<Rightarrow> string option \<times> HtmlDiff" where
  "diffOrdinary fuel finder st =
     (let st1 = st\<lparr> matchGranularity :=
                      min MatchGranularityMaximum (min (length (oldWords st)) (length (newWords st))) \<rparr>
      in case operations fuel finder st1 of
           None \<Rightarrow> (None, st1)
         | Some ops \<Rightarrow>
             (let st2 = st1\<lparr> oldWords := applyOriginals (originalWordsInOld st1) (oldWords st1) \<rparr>;
                  st3 = st2\<lparr> newWords := applyOriginals (originalWordsInNew st2) (newWords st2) \<rparr>;
                  st4 = fold performOperation ops st3
              in (Some (joinWords (content st4)), st4)))"

text \<open>
  \<open>diffWordRanges\<close>: the sub-diff is a fresh instance without options, so it has no
  analyzer and no block expressions; when its texts differ, its \<open>diff()\<close> splits them and
  takes the ordinary path.
\<close>

definition diffWordRanges ::
  "nat \<Rightarrow> WordSplitter \<Rightarrow> MatchFinder \<Rightarrow> string list \<Rightarrow> string list \<Rightarrow> string option" where
  "diffWordRanges fuel splitter finder ows nws =
     (if length ows = 0 \<and> length nws = 0 then Some []
      else (let oldT = joinWords ows; newT = joinWords nws
            in if oldT = newT then Some newT
               else (let subDiff = HtmlDiff_new oldT newT None
                     in fst (diffOrdinary fuel finder (splitInputsIntoWords splitter subDiff)))))"

definition delBlock :: "string \<Rightarrow> string" where
  \<open>delBlock c = ''<del class="diffdel">'' @ c @ ''</del>''\<close>

definition insBlock :: "string \<Rightarrow> string" where
  \<open>insBlock c = ''<ins class="diffins">'' @ c @ ''</ins>''\<close>

fun dwbtc_loop ::
  "nat \<Rightarrow> WordSplitter \<Rightarrow> MatchFinder \<Rightarrow> HtmlDiff \<Rightarrow> BlockChange list \<Rightarrow> nat \<Rightarrow> nat \<Rightarrow> string list
     \<Rightarrow> string list option" where
  "dwbtc_loop fuel splitter finder st [] oldPos newPos result =
     (if oldPos < length (oldWords st) \<or> newPos < length (newWords st)
      then (let afterOldWords = sliceFrom (int oldPos) (oldWords st);
                afterNewWords = sliceFrom (int newPos) (newWords st)
            in if length afterOldWords > 0 \<or> length afterNewWords > 0
               then (case diffWordRanges fuel splitter finder afterOldWords afterNewWords of
                       None \<Rightarrow> None
                     | Some afterDiff \<Rightarrow> Some (result @ [afterDiff]))
               else Some result)
      else Some result)"
| "dwbtc_loop fuel splitter finder st (change # rest) oldPos newPos result =
     (case (if oldPos < oldStart change \<or> newPos < newStart change
            then (let beforeOldWords = slice (int oldPos) (int (oldStart change)) (oldWords st);
                      beforeNewWords = slice (int newPos) (int (newStart change)) (newWords st)
                  in if length beforeOldWords > 0 \<or> length beforeNewWords > 0
                     then (case diffWordRanges fuel splitter finder beforeOldWords beforeNewWords of
                             None \<Rightarrow> None
                           | Some beforeDiff \<Rightarrow> Some (result @ [beforeDiff]))
                     else Some result)
            else Some result) of
        None \<Rightarrow> None
      | Some result1 \<Rightarrow>
          (let oldBlockContent =
                 joinWords (slice (int (oldStart change)) (int (oldEnd change) + 1) (oldWords st));
               newBlockContent =
                 joinWords (slice (int (newStart change)) (int (newEnd change) + 1) (newWords st))
           in dwbtc_loop fuel splitter finder st rest (oldEnd change + 1) (newEnd change + 1)
                (result1 @ [delBlock oldBlockContent, insBlock newBlockContent])))"

definition diffWithBlockTypeChanges ::
  "nat \<Rightarrow> WordSplitter \<Rightarrow> MatchFinder \<Rightarrow> HtmlDiff \<Rightarrow> BlockChange list \<Rightarrow> string option" where
  "diffWithBlockTypeChanges fuel splitter finder st blockTypeChanges =
     map_option joinWords (dwbtc_loop fuel splitter finder st blockTypeChanges 0 0 [])"

text \<open>\<open>HtmlDiff.diff()\<close>: the result (\<open>None\<close> when the matching ran out of fuel) and the instance after the call.\<close>

definition HtmlDiff_diff ::
  "nat \<Rightarrow> WordSplitter \<Rightarrow> MatchFinder \<Rightarrow> HtmlDiff \<Rightarrow> string option \<times> HtmlDiff" where
  "HtmlDiff_diff fuel splitter finder st =
     (if oldText st = newText st then (Some (newText st), st)
      else (let st1 = splitInputsIntoWords splitter st
            in case blockAnalyzer st1 of
                 Some ba \<Rightarrow>
                   (let st2 = st1\<lparr> oldBlocks := findBlocks ba (oldWords st1) \<rparr>;
                        st3 = st2\<lparr> newBlocks := findBlocks ba (newWords st2) \<rparr>;
                        blockTypeChanges = detectBlockTypeChanges st3
                    in if length blockTypeChanges > 0
                       then (diffWithBlockTypeChanges fuel splitter finder st3 blockTypeChanges, st3)
                       else diffOrdinary fuel finder st3)
               | None \<Rightarrow> diffOrdinary fuel finder st1))"

section \<open>index.ts\<close>

definition diff_instance :: "string \<Rightarrow> string \<Rightarrow> Options \<Rightarrow> HtmlDiff" where
  "diff_instance oldT newT options =
     (let finder0 = HtmlDiff_new oldT newT (Some \<lparr> blockDiffH = blockDiff options \<rparr>)
      in case blocksExpression options of
           Some bs \<Rightarrow> fold addBlockExpression bs finder0
         | None \<Rightarrow> finder0)"

definition diff :: "nat \<Rightarrow> WordSplitter \<Rightarrow> MatchFinder \<Rightarrow> string \<Rightarrow> string \<Rightarrow> Options \<Rightarrow> string option" where
  "diff fuel splitter finder oldT newT options =
     fst (HtmlDiff_diff fuel splitter finder (diff_instance oldT newT options))"

section \<open>WordSplitter\<close>

text \<open>
  Modelled from the spec: \<open>WordSplitter.ts\<close> is not among the sources. The text is scanned
  from the left. A \<open><\<close> starts a tag, which runs through the next \<open>>\<close>; when the end of the
  text or another \<open><\<close> comes first, the \<open><\<close> is a token of its own. A run of white space
  characters and \<open>&nbsp;\<close> entities is one token. An \<open>&\<close> followed by word characters and a
  \<open>;\<close> is one entity token; without the \<open>;\<close> the \<open>&\<close> is a token of its own. A run of word
  characters (letters, digits, \<open>_\<close>, \<open>#\<close>, \<open>@\<close>) is one token, and every other character is a
  token of its own. A tag other than the emphasis tags listed in \<open>Diff.ts\<close> is compared in
  the form \<open>stripTagAttributes\<close> gives it, and its original form is recorded. Block
  expressions are regular expressions, which the model keeps abstract: this is the
  tokenizer for an empty list of them.
\<close>

definition isWordChar :: "char \<Rightarrow> bool" where
  "isWordChar c = (isLetterChar c \<or> isDigitChar c \<or> c = CHR ''_'' \<or> c = CHR ''#'' \<or> c = CHR ''@'')"

text \<open>The length of the rest of a tag that starts at a \<open><\<close>: through the first \<open>>\<close>, unless another \<open><\<close> or the end comes first.\<close>

fun tagLength :: "string \<Rightarrow> nat option" where
  "tagLength [] = None"
| "tagLength (c # cs) =
     (if c = CHR ''>'' then Some 1
      else if c = CHR ''<'' then None
      else map_option Suc (tagLength cs))"

fun spaceRunLength :: "nat \<Rightarrow> string \<Rightarrow> nat" where
  "spaceRunLength 0 s = 0"
| "spaceRunLength (Suc fuel) s =
     (case s of
        [] \<Rightarrow> 0
      | c # cs \<Rightarrow>
          if isSpaceChar c then 1 + spaceRunLength fuel cs
          else if startsWith s ''&nbsp;'' then 6 + spaceRunLength fuel (drop 6 s)
          else 0)"

definition entityLength :: "string \<Rightarrow> nat option" where
  "entityLength s =
     (let body = takeWhile isWordChar s
      in case drop (length body) s of
           [] \<Rightarrow> None
         | c # _ \<Rightarrow> if c = CHR '';'' then Some (length body + 1) else None)"

text \<open>One token from the front of a non-empty text: the number of characters it takes.\<close>

definition tokenLength :: "string \<Rightarrow> nat" where
  "tokenLength s =
     (case s of
        [] \<Rightarrow> 0
      | c # cs \<Rightarrow>
          if c = CHR ''<'' then (case tagLength cs of Some n \<Rightarrow> Suc n | None \<Rightarrow> 1)
          else if spaceRunLength (length s) s > 0 then spaceRunLength (length s) s
          else if c = CHR ''&'' then (case entityLength cs of Some n \<Rightarrow> Suc n | None \<Rightarrow> 1)
          else if isWordChar c then length (takeWhile isWordChar s)
          else 1)"

fun tokensOf :: "nat \<Rightarrow> string \<Rightarrow> string list" where
  "tokensOf 0 s = []"
| "tokensOf (Suc fuel) s =
     (if s = [] then []
      else take (max 1 (tokenLength s)) s # tokensOf fuel (drop (max 1 (tokenLength s)) s))"

definition specialCaseClosingTags :: "string list" where
  "specialCaseClosingTags =
     [''</strong>'', ''</em>'', ''</b>'', ''</i>'', ''</big>'', ''</small>'', ''</u>'', ''</sub>'',
      ''</strike>'', ''</s>'', ''</dfn>'']"

definition specialCaseOpeningNames :: "string list" where
  "specialCaseOpeningNames =
     [''strong'', ''b'', ''i'', ''dfn'', ''em'', ''big'', ''small'', ''u'', ''sub'', ''sup'', ''strike'', ''s'']"

definition isSpecialCaseOpeningTag :: "string \<Rightarrow> bool" where
  "isSpecialCaseOpeningTag w =
     list_ex (\<lambda>name. let p = CHR ''<'' # name
                      in startsWith (toLowerCase w) p \<and>
                         (case drop (length p) w of
                            [] \<Rightarrow> False
                          | c # _ \<Rightarrow> c = CHR ''>'' \<or> isSpaceChar c))
             specialCaseOpeningNames"

definition comparisonForm :: "string \<Rightarrow> string \<times> string option" where
  "comparisonForm w =
     (if isTag w \<and> \<not> isSpecialCaseOpeningTag w \<and> toLowerCase w \<notin> set specialCaseClosingTags
      then (stripTagAttributes w, Some w)
      else (w, None))"

definition convertHtmlToListOfWords :: WordSplitter where
  "convertHtmlToListOfWords txt bes = map comparisonForm (tokensOf (length txt) txt)"

section \<open>MatchFinder\<close>

text \<open>
  Modelled from the spec: \<open>MatchFinder.ts\<close> is not among the sources. Within the windows
  \<open>[startInOld, endInOld)\<close> and \<open>[startInNew, endInNew)\<close> and for the group size
  \<open>blockSize\<close>, the finder looks at every group of \<open>blockSize\<close> consecutive tokens (joined,
  white space normalised when differences in it are ignored) of the new window, leaves out
  the groups that occur more often than the accuracy times the window size, and for each
  position of the old window extends a match one group at a time while the groups are
  equal. The longest extension wins; among equal ones the earliest in old, then the
  earliest in new. A match of \<open>n\<close> groups spans \<open>n + blockSize - 1\<close> tokens, which is its size
  (\<open>endInOld = startInOld + size\<close> is a token index). \<open>None\<close> is \<open>null\<close>.
\<close>

definition normalizeForIndex :: "MatchOptions \<Rightarrow> string \<Rightarrow> string" where
  "normalizeForIndex opts w =
     (if ignoreWhitespaceDifferences opts \<and> isWhiteSpace w then '' '' else w)"

definition groupKey :: "MatchOptions \<Rightarrow> string list \<Rightarrow> nat \<Rightarrow> string" where
  "groupKey opts ws i = concat (map (normalizeForIndex opts) (take (blockSize opts) (drop i ws)))"

definition groupStarts :: "MatchOptions \<Rightarrow> nat \<Rightarrow> nat \<Rightarrow> nat list" where
  "groupStarts opts lo hi = [lo ..< hi + 1 - blockSize opts]"

definition isRepeating :: "MatchOptions \<Rightarrow> string list \<Rightarrow> nat \<Rightarrow> nat \<Rightarrow> string \<Rightarrow> bool" where
  "isRepeating opts nws sn en k =
     (of_nat (length (filter (\<lambda>j. groupKey opts nws j = k) (groupStarts opts sn en)))
        > of_nat (en - sn) * repeatingWordsAccuracyOpt opts)"

fun extendMatch ::
  "MatchOptions \<Rightarrow> string list \<Rightarrow> string list \<Rightarrow> nat \<Rightarrow> nat \<Rightarrow> nat \<Rightarrow> nat \<Rightarrow> nat \<Rightarrow> nat \<Rightarrow> nat" where
  "extendMatch opts ows nws sn eo en 0 i j = 0"
| "extendMatch opts ows nws sn eo en (Suc k) i j =
     (if i + blockSize opts \<le> eo \<and> j + blockSize opts \<le> en \<and>
         groupKey opts ows i = groupKey opts nws j \<and>
         \<not> isRepeating opts nws sn en (groupKey opts nws j)
      then Suc (extendMatch opts ows nws sn eo en k (Suc i) (Suc j))
      else 0)"

definition betterMatch :: "(nat \<times> nat \<times> nat) \<Rightarrow> (nat \<times> nat \<times> nat) \<Rightarrow> (nat \<times> nat \<times> nat)" where
  "betterMatch best cand = (if snd (snd cand) > snd (snd best) then cand else best)"

definition MatchFinder_findMatch :: MatchFinder where
  "MatchFinder_findMatch ows nws so eo sn en opts =
     (let cands = concat (map (\<lambda>i. map (\<lambda>j. (i, j, extendMatch opts ows nws sn eo en (eo - i) i j))
                                       (groupStarts opts sn en))
                              (groupStarts opts so eo));
          best = foldl betterMatch (so, sn, 0) cands
      in if snd (snd best) = 0 then None
         else Some (Match_new (fst best) (fst (snd best)) (snd (snd best) + blockSize opts - 1)))"


section \<open>The identity fast path\<close>

lemma fold_addBlockExpression_fields:
  "oldText (fold addBlockExpression bs st) = oldText st"
  "newText (fold addBlockExpression bs st) = newText st"
  "oldWords (fold addBlockExpression bs st) = oldWords st"
  "newWords (fold addBlockExpression bs st) = newWords st"
  "orphanMatchThreshold (fold addBlockExpression bs st) = orphanMatchThreshold st"
  "blockAnalyzer (fold addBlockExpression bs st) = blockAnalyzer st"
  by (induction bs arbitrary: st) (simp_all add: addBlockExpression_def)

lemma diff_instance_fields:
  "oldText (diff_instance oldT newT options) = oldT"
  "newText (diff_instance oldT newT options) = newT"
  "oldWords (diff_instance oldT newT options) = []"
  "newWords (diff_instance oldT newT options) = []"
  "orphanMatchThreshold (diff_instance oldT newT options) = 0"
  by (simp_all add: diff_instance_def HtmlDiff_new_def Let_def fold_addBlockExpression_fields
      split: option.splits)

text \<open>
  C2. For every input \<open>x\<close> and every options value, \<open>diff(x, x)\<close> returns \<open>x\<close> itself. The
  result comes from the equality test at the head of \<open>HtmlDiff.diff\<close>: it holds for every
  tokenizer, every match finder and every amount of fuel (also none), and the instance
  is returned as the constructor left it, its token arrays still empty, so the tokenizer
  has not run.
\<close>

theorem diff_identity_fast_path:
  "diff fuel splitter finder x x options = Some x \<and>
   snd (HtmlDiff_diff fuel splitter finder (diff_instance x x options)) = diff_instance x x options \<and>
   oldWords (snd (HtmlDiff_diff fuel splitter finder (diff_instance x x options))) = [] \<and>
   newWords (snd (HtmlDiff_diff fuel splitter finder (diff_instance x x options))) = []"
  by (simp add: diff_def HtmlDiff_diff_def diff_instance_fields)

section \<open>Rendering wraps maximal runs\<close>






















section \<open>The edit script partitions both token ranges\<close>

text \<open>
  What the engine relies on from a match finder: a match it returns for a positive group
  size lies inside both windows and is not empty.
\<close>

definition finderInWindow :: "MatchFinder \<Rightarrow> bool" where
  "finderInWindow finder =
     (\<forall>ows nws so eo sn en opts m.
        0 < blockSize opts \<and> finder ows nws so eo sn en opts = Some m \<longrightarrow>
          so \<le> startInOldM m \<and> endInOldM m \<le> eo \<and>
          sn \<le> startInNewM m \<and> endInNewM m \<le> en \<and> 0 < sizeM m)"

text \<open>
  A list of matches is ordered between two positions when each starts at or after the
  end of the one before, on both sides. A list of ranges tiles \<open>[a, b)\<close> when the first
  starts at \<open>a\<close>, each next one starts where the one before ends, and the last ends at \<open>b\<close>.
\<close>

fun matchesOrdered :: "nat \<Rightarrow> nat \<Rightarrow> nat \<Rightarrow> nat \<Rightarrow> Match list \<Rightarrow> bool" where
  "matchesOrdered po pn eo en [] = (po \<le> eo \<and> pn \<le> en)"
| "matchesOrdered po pn eo en (m # ms) =
     (po \<le> startInOldM m \<and> pn \<le> startInNewM m \<and>
      matchesOrdered (endInOldM m) (endInNewM m) eo en ms)"

fun tiles :: "nat \<Rightarrow> nat \<Rightarrow> (nat \<times> nat) list \<Rightarrow> bool" where
  "tiles a b [] = (a = b)"
| "tiles a b (r # rs) = (fst r = a \<and> fst r \<le> snd r \<and> tiles (snd r) b rs)"

definition oldRanges :: "Operation list \<Rightarrow> (nat \<times> nat) list" where
  "oldRanges ops = map (\<lambda>opp. (startInOld opp, endInOld opp)) ops"

definition newRanges :: "Operation list \<Rightarrow> (nat \<times> nat) list" where
  "newRanges ops = map (\<lambda>opp. (startInNew opp, endInNew opp)) ops"

lemma findMatch_loop_window:
  assumes "finderInWindow finder" "findMatch_loop finder st so eo sn en k = Some m"
  shows "so \<le> startInOldM m \<and> endInOldM m \<le> eo \<and> sn \<le> startInNewM m \<and> endInNewM m \<le> en \<and> 0 < sizeM m"
  using assms
proof (induction k)
  case 0
  then show ?case by simp
next
  case (Suc k)
  show ?case
  proof (cases "finder (oldWords st) (newWords st) so eo sn en
             \<lparr> blockSize = Suc k,
               repeatingWordsAccuracyOpt = repeatingWordsAccuracy st,
               ignoreWhitespaceDifferences = ignoreWhiteSpaceDifferences st \<rparr>")
    case None
    with Suc show ?thesis by simp
  next
    case (Some m')
    with Suc.prems(2) have "m' = m" by simp
    with Some Suc.prems(1) show ?thesis
      unfolding finderInWindow_def
      by (metis MatchOptions.select_convs(1) zero_less_Suc)
  qed
qed

lemma findMatch_window:
  assumes "finderInWindow finder" "findMatch finder st so eo sn en = Some m"
  shows "so \<le> startInOldM m \<and> endInOldM m \<le> eo \<and> sn \<le> startInNewM m \<and> endInNewM m \<le> en \<and> 0 < sizeM m"
  using assms findMatch_loop_window unfolding findMatch_def by blast

lemma matchesOrdered_bounds: "matchesOrdered po pn eo en ms \<Longrightarrow> po \<le> eo \<and> pn \<le> en"
proof (induction ms arbitrary: po pn)
  case Nil
  then show ?case by simp
next
  case (Cons m ms)
  from Cons.prems have "matchesOrdered (endInOldM m) (endInNewM m) eo en ms"
    and "po \<le> startInOldM m" "pn \<le> startInNewM m" by simp_all
  with Cons.IH [of "endInOldM m" "endInNewM m"] show ?case
    by (simp add: endInOldM_def endInNewM_def)
qed

lemma matchesOrdered_append:
  "matchesOrdered po pn qo qn xs \<Longrightarrow> matchesOrdered qo qn eo en ys \<Longrightarrow>
   matchesOrdered po pn eo en (xs @ ys)"
proof (induction xs arbitrary: po pn)
  case Nil
  then show ?case by (cases ys) auto
next
  case (Cons x xs)
  then show ?case by simp
qed

lemma matchesOrdered_weaken_start:
  "matchesOrdered po pn eo en ms \<Longrightarrow> po' \<le> po \<Longrightarrow> pn' \<le> pn \<Longrightarrow> matchesOrdered po' pn' eo en ms"
  by (cases ms) auto

lemma matchesOrdered_weaken_end:
  "matchesOrdered po pn eo en ms \<Longrightarrow> eo \<le> eo' \<Longrightarrow> en \<le> en' \<Longrightarrow> matchesOrdered po pn eo' en' ms"
  by (induction ms arbitrary: po pn) auto

lemma findMatchingBlocks_ordered:
  assumes fw: "finderInWindow finder"
  shows "so \<le> eo \<Longrightarrow> sn \<le> en \<Longrightarrow> eo - so < fuel \<Longrightarrow>
         \<exists>ms. findMatchingBlocks fuel finder st so eo sn en acc = Some (acc @ ms) \<and>
              matchesOrdered so sn eo en ms"
proof (induction fuel arbitrary: so eo sn en acc)
  case 0
  then show ?case by simp
next
  case (Suc fuel)
  show ?case
  proof (cases "findMatch finder st so eo sn en")
    case None
    with Suc.prems show ?thesis by (intro exI [of _ "[]"]) simp
  next
    case (Some m)
    from findMatch_window [OF fw Some]
    have w: "so \<le> startInOldM m" "endInOldM m \<le> eo" "sn \<le> startInNewM m"
      "endInNewM m \<le> en" "0 < sizeM m" by auto
    have lt1: "startInOldM m - so < fuel"
      using w Suc.prems(3) by (simp add: endInOldM_def)
    have lt2: "eo - endInOldM m < fuel"
      using w Suc.prems(3) by (simp add: endInOldM_def)
    obtain pre where pre:
      "(if so < startInOldM m \<and> sn < startInNewM m
        then findMatchingBlocks fuel finder st so (startInOldM m) sn (startInNewM m) acc
        else Some acc) = Some (acc @ pre)"
      "matchesOrdered so sn (startInOldM m) (startInNewM m) pre"
    proof (cases "so < startInOldM m \<and> sn < startInNewM m")
      case True
      from Suc.IH [OF w(1) w(3) lt1, of acc] obtain ms where
        "findMatchingBlocks fuel finder st so (startInOldM m) sn (startInNewM m) acc = Some (acc @ ms)"
        "matchesOrdered so sn (startInOldM m) (startInNewM m) ms" by blast
      with True that show ?thesis by simp
    next
      case False
      with w that [of "[]"] show ?thesis by simp
    qed
    obtain post where post:
      "(if endInOldM m < eo \<and> endInNewM m < en
        then findMatchingBlocks fuel finder st (endInOldM m) eo (endInNewM m) en ((acc @ pre) @ [m])
        else Some ((acc @ pre) @ [m])) = Some (((acc @ pre) @ [m]) @ post)"
      "matchesOrdered (endInOldM m) (endInNewM m) eo en post"
    proof (cases "endInOldM m < eo \<and> endInNewM m < en")
      case True
      from Suc.IH [OF w(2) w(4) lt2, of "(acc @ pre) @ [m]"] obtain ms where
        "findMatchingBlocks fuel finder st (endInOldM m) eo (endInNewM m) en ((acc @ pre) @ [m])
           = Some (((acc @ pre) @ [m]) @ ms)"
        "matchesOrdered (endInOldM m) (endInNewM m) eo en ms" by blast
      with True that show ?thesis by simp
    next
      case False
      with w that [of "[]"] show ?thesis by simp
    qed
    have res: "findMatchingBlocks (Suc fuel) finder st so eo sn en acc = Some (acc @ (pre @ m # post))"
      using Some pre(1) post(1) by simp
    have "matchesOrdered (startInOldM m) (startInNewM m) eo en (m # post)"
      using post(2) by simp
    from matchesOrdered_append [OF pre(2) this]
    have "matchesOrdered so sn eo en (pre @ m # post)" .
    with res show ?thesis by blast
  qed
qed


lemma removeOrphans_loop_ordered:
  "matchesOrdered po pn eo en (c # rest) \<Longrightarrow>
   matchesOrdered po pn eo en (removeOrphans_loop st p c rest)"
proof (induction rest arbitrary: po pn p c)
  case Nil
  then show ?case by simp
next
  case (Cons n rest)
  from Cons.prems have c: "po \<le> startInOldM c" "pn \<le> startInNewM c"
    and tl: "matchesOrdered (endInOldM c) (endInNewM c) eo en (n # rest)" by simp_all
  have IH1: "matchesOrdered (endInOldM c) (endInNewM c) eo en (removeOrphans_loop st q n rest)" for q
    using Cons.IH [OF tl] .
  have le: "po \<le> endInOldM c" "pn \<le> endInNewM c"
    using c by (simp_all add: endInOldM_def endInNewM_def)
  have IH2: "matchesOrdered po pn eo en (removeOrphans_loop st q n rest)" for q
    using matchesOrdered_weaken_start [OF IH1 le] .
  show ?case
    using c IH1 IH2 by (simp add: Let_def)
qed

lemma removeOrphans_loop_last:
  "removeOrphans_loop st p c rest \<noteq> [] \<and> last (removeOrphans_loop st p c rest) = last (c # rest)"
  by (induction rest arbitrary: p c) (simp_all add: Let_def)

lemma those_map_Some: "those (map Some xs) = Some xs"
  by (induction xs) simp_all

text \<open>On a non-empty array the generator yields no \<open>null\<close>.\<close>

lemma removeOrphans_those:
  assumes "ms \<noteq> []"
  shows "\<exists>kept. those (removeOrphans st ms) = Some kept \<and> kept \<noteq> [] \<and> last kept = last ms \<and>
           (matchesOrdered po pn eo en ms \<longrightarrow> matchesOrdered po pn eo en kept)"
proof -
  from assms obtain c rest where ms: "ms = c # rest" by (cases ms) auto
  let ?kept = "removeOrphans_loop st (Match_new 0 0 0) c rest"
  have "those (removeOrphans st ms) = Some ?kept" by (simp add: ms those_map_Some)
  moreover have "?kept \<noteq> []" "last ?kept = last ms"
    using removeOrphans_loop_last [of st "Match_new 0 0 0" c rest] by (simp_all add: ms)
  moreover have "matchesOrdered po pn eo en ms \<longrightarrow> matchesOrdered po pn eo en ?kept"
    using removeOrphans_loop_ordered [of po pn eo en c rest st "Match_new 0 0 0"] by (simp only: ms) blast
  ultimately show ?thesis by blast
qed

lemma operations_loop_tiles:
  assumes "ms \<noteq> []" "matchesOrdered po pn eo en ms"
    "endInOldM (last ms) = eo" "endInNewM (last ms) = en"
  shows "tiles po eo (oldRanges (operations_loop po pn ms)) \<and>
         tiles pn en (newRanges (operations_loop po pn ms))"
  using assms
proof (induction ms arbitrary: po pn)
  case Nil
  then show ?case by simp
next
  case (Cons m ms)
  from Cons.prems have c: "po \<le> startInOldM m" "pn \<le> startInNewM m"
    and tl: "matchesOrdered (endInOldM m) (endInNewM m) eo en ms" by simp_all
  have rest: "tiles (endInOldM m) eo (oldRanges (operations_loop (endInOldM m) (endInNewM m) ms)) \<and>
         tiles (endInNewM m) en (newRanges (operations_loop (endInOldM m) (endInNewM m) ms))"
  proof (cases "ms = []")
    case True
    with Cons.prems show ?thesis by (simp add: oldRanges_def newRanges_def)
  next
    case False
    with Cons.prems Cons.IH [OF False tl] show ?thesis by simp
  qed
  show ?case
    using c rest
    by (auto simp: Let_def oldRanges_def newRanges_def gapAction_def endInOldM_def endInNewM_def)
qed

lemma tiles_le: "tiles a b rs \<Longrightarrow> a \<le> b"
  by (induction rs arbitrary: a) fastforce+

lemma tiles_range_within:
  "tiles a b rs \<Longrightarrow> k < length rs \<Longrightarrow> a \<le> fst (rs ! k) \<and> snd (rs ! k) \<le> b"
proof (induction rs arbitrary: a k)
  case Nil
  then show ?case by simp
next
  case (Cons r rs)
  from Cons.prems have t: "tiles (snd r) b rs" and r: "fst r = a" "fst r \<le> snd r" by simp_all
  show ?case
  proof (cases k)
    case 0
    with r tiles_le [OF t] show ?thesis by simp
  next
    case (Suc k')
    with Cons.prems have "k' < length rs" by simp
    from Cons.IH [OF t this] r Suc show ?thesis by simp
  qed
qed

lemma tiles_covers_once:
  "tiles a b rs \<Longrightarrow> a \<le> i \<Longrightarrow> i < b \<Longrightarrow>
   \<exists>!k. k < length rs \<and> fst (rs ! k) \<le> i \<and> i < snd (rs ! k)"
proof (induction rs arbitrary: a)
  case Nil
  then show ?case by simp
next
  case (Cons r rs)
  from Cons.prems have t: "tiles (snd r) b rs" and r: "fst r = a" "fst r \<le> snd r" by simp_all
  show ?case
  proof (cases "i < snd r")
    case True
    have "0 < length (r # rs) \<and> fst ((r # rs) ! 0) \<le> i \<and> i < snd ((r # rs) ! 0)"
      using True r Cons.prems by simp
    moreover have "k = 0" if "k < length (r # rs) \<and> fst ((r # rs) ! k) \<le> i \<and> i < snd ((r # rs) ! k)" for k
    proof (cases k)
      case 0
      then show ?thesis .
    next
      case (Suc k')
      with that have "k' < length rs" "fst (rs ! k') \<le> i" by simp_all
      with tiles_range_within [OF t, of k'] True show ?thesis by simp
    qed
    ultimately show ?thesis by blast
  next
    case False
    then have "snd r \<le> i" by simp
    from Cons.IH [OF t this Cons.prems(3)]
    obtain k where k: "k < length rs \<and> fst (rs ! k) \<le> i \<and> i < snd (rs ! k)"
      and uniq: "\<And>k'. k' < length rs \<and> fst (rs ! k') \<le> i \<and> i < snd (rs ! k') \<Longrightarrow> k' = k"
      by blast
    have "Suc k < length (r # rs) \<and> fst ((r # rs) ! Suc k) \<le> i \<and> i < snd ((r # rs) ! Suc k)"
      using k by simp
    moreover have "k' = Suc k"
      if "k' < length (r # rs) \<and> fst ((r # rs) ! k') \<le> i \<and> i < snd ((r # rs) ! k')" for k'
    proof (cases k')
      case 0
      with that False show ?thesis by simp
    next
      case (Suc j)
      with that uniq [of j] show ?thesis by simp
    qed
    ultimately show ?thesis by blast
  qed
qed

lemma extendMatch_bound:
  "extendMatch opts ows nws sn eo en k i j = n \<Longrightarrow> 0 < n \<Longrightarrow>
     i + n + blockSize opts \<le> eo + 1 \<and> j + n + blockSize opts \<le> en + 1"
proof (induction k arbitrary: i j n)
  case 0
  then show ?case by simp
next
  case (Suc k)
  let ?c = "i + blockSize opts \<le> eo \<and> j + blockSize opts \<le> en \<and>
         groupKey opts ows i = groupKey opts nws j \<and>
         \<not> isRepeating opts nws sn en (groupKey opts nws j)"
  from Suc.prems have c: ?c by (auto split: if_splits)
  with Suc.prems have n: "n = Suc (extendMatch opts ows nws sn eo en k (Suc i) (Suc j))" by simp
  show ?case
  proof (cases "extendMatch opts ows nws sn eo en k (Suc i) (Suc j)")
    case 0
    with n c show ?thesis by simp
  next
    case (Suc n')
    from Suc.IH [OF this] Suc n show ?thesis by simp
  qed
qed

lemma foldl_betterMatch_cases:
  "foldl betterMatch b cs = b \<or> foldl betterMatch b cs \<in> set cs"
proof (induction cs arbitrary: b)
  case Nil
  then show ?case by simp
next
  case (Cons c cs)
  from Cons.IH [of "betterMatch b c"] show ?case
    by (auto simp: betterMatch_def split: if_splits)
qed

lemma MatchFinder_findMatch_inWindow: "finderInWindow MatchFinder_findMatch"
  unfolding finderInWindow_def
proof (intro allI impI)
  fix ows nws so eo sn en opts m
  assume a: "0 < blockSize opts \<and> MatchFinder_findMatch ows nws so eo sn en opts = Some m"
  define cands where "cands = concat (map (\<lambda>i. map (\<lambda>j. (i, j, extendMatch opts ows nws sn eo en (eo - i) i j))
                                       (groupStarts opts sn en))
                              (groupStarts opts so eo))"
  define best where "best = foldl betterMatch (so, sn, 0) cands"
  from a have nz: "snd (snd best) \<noteq> 0"
    and m: "m = Match_new (fst best) (fst (snd best)) (snd (snd best) + blockSize opts - 1)"
    by (auto simp: MatchFinder_findMatch_def Let_def best_def cands_def split: if_splits)
  from foldl_betterMatch_cases [of "(so, sn, 0)" cands] nz have "best \<in> set cands"
    by (auto simp: best_def)
  then obtain i j where ij: "i \<in> set (groupStarts opts so eo)" "j \<in> set (groupStarts opts sn en)"
    "best = (i, j, extendMatch opts ows nws sn eo en (eo - i) i j)"
    by (auto simp: cands_def)
  from extendMatch_bound [OF refl, of opts ows nws sn eo en "eo - i" i j] nz ij(3)
  have b: "i + snd (snd best) + blockSize opts \<le> eo + 1" "j + snd (snd best) + blockSize opts \<le> en + 1"
    by simp_all
  from ij(1,2) have lo: "so \<le> i" "sn \<le> j" by (simp_all add: groupStarts_def)
  have e1: "i + (snd (snd best) + blockSize opts - 1) \<le> eo" using b(1) nz by arith
  have e2: "j + (snd (snd best) + blockSize opts - 1) \<le> en" using b(2) nz by arith
  have e3: "0 < snd (snd best) + blockSize opts - 1" using nz a by arith
  from lo e1 e2 e3 m ij(3) show "so \<le> startInOldM m \<and> endInOldM m \<le> eo \<and>
          sn \<le> startInNewM m \<and> endInNewM m \<le> en \<and> 0 < sizeM m"
    by (simp add: Match_new_def endInOldM_def endInNewM_def)
qed

text \<open>
  C1. For every pair of token arrays, once the finder's matches lie in their windows and
  the fuel exceeds the number of old tokens, \<open>operations()\<close> returns, and its Operation
  sequence tiles \<open>[0, len(oldWords))\<close> by its old-side ranges and \<open>[0, len(newWords))\<close> by its
  new-side ranges: ordered, each range starting where the one before ends, no gap and no
  overlap, so every old index and every new index lies in exactly one Operation.
\<close>

theorem operations_partition:
  assumes "finderInWindow finder" and "length (oldWords st) < fuel"
  shows "\<exists>ops. operations fuel finder st = Some ops \<and>
           tiles 0 (length (oldWords st)) (oldRanges ops) \<and>
           tiles 0 (length (newWords st)) (newRanges ops) \<and>
           (\<forall>i < length (oldWords st).
              \<exists>!k. k < length ops \<and> startInOld (ops ! k) \<le> i \<and> i < endInOld (ops ! k)) \<and>
           (\<forall>j < length (newWords st).
              \<exists>!k. k < length ops \<and> startInNew (ops ! k) \<le> j \<and> j < endInNew (ops ! k))"
proof -
  let ?lo = "length (oldWords st)" and ?ln = "length (newWords st)"
  from findMatchingBlocks_ordered [OF assms(1), of 0 ?lo 0 ?ln fuel st "[]"] assms(2)
  obtain ms where ms: "matchingBlocks fuel finder st = Some ms" "matchesOrdered 0 0 ?lo ?ln ms"
    by (auto simp: matchingBlocks_def)
  let ?final = "Match_new ?lo ?ln 0"
  let ?ms' = "ms @ [?final]"
  have "matchesOrdered ?lo ?ln ?lo ?ln [?final]"
    by (simp add: Match_new_def endInOldM_def endInNewM_def)
  from matchesOrdered_append [OF ms(2) this]
  have ord: "matchesOrdered 0 0 ?lo ?ln ?ms'" .
  from removeOrphans_those [of ?ms' st 0 0 ?lo ?ln] ord
  obtain kept where kept: "those (removeOrphans st ?ms') = Some kept"
    and kept_last: "kept \<noteq> []" "last kept = ?final"
    and kept_ord: "matchesOrdered 0 0 ?lo ?ln kept"
    by auto
  let ?ops = "operations_loop 0 0 kept"
  have ends: "endInOldM (last kept) = ?lo" "endInNewM (last kept) = ?ln"
    using kept_last(2) by (simp_all add: Match_new_def endInOldM_def endInNewM_def)
  from operations_loop_tiles [OF kept_last(1) kept_ord ends]
  have t: "tiles 0 ?lo (oldRanges ?ops)" "tiles 0 ?ln (newRanges ?ops)" by simp_all
  have ops: "operations fuel finder st = Some ?ops"
    using ms(1) kept by (simp add: operations_def Let_def)
  have co: "\<exists>!k. k < length ?ops \<and> startInOld (?ops ! k) \<le> i \<and> i < endInOld (?ops ! k)"
    if "i < ?lo" for i
    using tiles_covers_once [OF t(1) _ that] by (simp add: oldRanges_def cong: conj_cong)
  have cn: "\<exists>!k. k < length ?ops \<and> startInNew (?ops ! k) \<le> j \<and> j < endInNew (?ops ! k)"
    if "j < ?ln" for j
    using tiles_covers_once [OF t(2) _ that] by (simp add: newRanges_def cong: conj_cong)
  from ops t co cn show ?thesis by blast
qed


definition exampleInstance :: HtmlDiff where
  "exampleInstance =
     (HtmlDiff_new [] [] None)\<lparr> oldWords := [''a'', '' '', ''b''], newWords := [''a'', '' '', ''c''],
                                 matchGranularity := 3 \<rparr>"

lemma exampleInstance_operations:
  "operations 4 MatchFinder_findMatch exampleInstance =
     Some [\<lparr> action = ActEqual, startInOld = 0, endInOld = 2, startInNew = 0, endInNew = 2 \<rparr>,
           \<lparr> action = ActReplace, startInOld = 2, endInOld = 3, startInNew = 2, endInNew = 3 \<rparr>]"
  by code_simp

theorem operations_partition_witness:
  "finderInWindow MatchFinder_findMatch \<and> length (oldWords exampleInstance) < 4 \<and>
   operations 4 MatchFinder_findMatch exampleInstance =
     Some [\<lparr> action = ActEqual, startInOld = 0, endInOld = 2, startInNew = 0, endInNew = 2 \<rparr>,
           \<lparr> action = ActReplace, startInOld = 2, endInOld = 3, startInNew = 2, endInNew = 3 \<rparr>] \<and>
   tiles 0 3 (oldRanges [\<lparr> action = ActEqual, startInOld = 0, endInOld = 2, startInNew = 0, endInNew = 2 \<rparr>,
           \<lparr> action = ActReplace, startInOld = 2, endInOld = 3, startInNew = 2, endInNew = 3 \<rparr>]) \<and>
   tiles 0 3 (newRanges [\<lparr> action = ActEqual, startInOld = 0, endInOld = 2, startInNew = 0, endInNew = 2 \<rparr>,
           \<lparr> action = ActReplace, startInOld = 2, endInOld = 3, startInNew = 2, endInNew = 3 \<rparr>])"
proof -
  have len: "length (oldWords exampleInstance) < 4"
    by (simp add: exampleInstance_def)
  from operations_partition [OF MatchFinder_findMatch_inWindow len]
  obtain ops where o: "operations 4 MatchFinder_findMatch exampleInstance = Some ops"
    and t1: "tiles 0 (length (oldWords exampleInstance)) (oldRanges ops)"
    and t2: "tiles 0 (length (newWords exampleInstance)) (newRanges ops)" by blast
  from o have ops: "ops =
     [\<lparr> action = ActEqual, startInOld = 0, endInOld = 2, startInNew = 0, endInNew = 2 \<rparr>,
      \<lparr> action = ActReplace, startInOld = 2, endInOld = 3, startInNew = 2, endInNew = 3 \<rparr>]"
    by (simp add: exampleInstance_operations)
  have l: "length (oldWords exampleInstance) = 3" "length (newWords exampleInstance) = 3"
    by (simp_all add: exampleInstance_def)
  from t1 t2 have "tiles 0 3 (oldRanges ops)" "tiles 0 3 (newRanges ops)"
    by (simp_all only: l)
  with len MatchFinder_findMatch_inWindow exampleInstance_operations show ?thesis
    unfolding ops by blast
qed


section \<open>Orphan removal\<close>

lemma toDouble_zero: "toDouble 0 = 0"
  by (simp add: toDouble_def)

lemma foldl_sumLength: "foldl (\<lambda>t n. t + length n) a ws = a + length (concat ws)"
  by (induction ws arbitrary: a) simp_all

lemma sumLength_joinWords: "sumLength ws = length (joinWords ws)"
  by (simp add: sumLength_def joinWords_def foldl_sumLength)

lemma sumLength_zero_iff: "sumLength ws = 0 \<longleftrightarrow> (\<forall>w \<in> set ws. w = [])"
  by (simp add: sumLength_joinWords joinWords_def)

definition matchedChars :: "HtmlDiff \<Rightarrow> Match \<Rightarrow> nat" where
  "matchedChars st m = sumLength (slice (int (startInNewM m)) (int (endInNewM m)) (newWords st))"

lemma removeOrphans_loop_keeps:
  assumes "orphanMatchThreshold st = 0"
  shows "m \<in> set (c # rest) \<Longrightarrow> 0 < matchedChars st m \<Longrightarrow> m \<in> set (removeOrphans_loop st p c rest)"
proof (induction rest arbitrary: p c)
  case Nil
  then show ?case by simp
next
  case (Cons n rest)
  show ?case
  proof (cases "m = c")
    case True
    with Cons.prems(2) assms show ?thesis
      by (simp add: Let_def matchedChars_def toDouble_zero)
  next
    case False
    with Cons.prems have "m \<in> set (n # rest)" by simp
    from Cons.IH [OF this Cons.prems(2)] show ?thesis
      by (simp add: Let_def)
  qed
qed

lemma threshold_fields:
  "orphanMatchThreshold (splitInputsIntoWords splitter st) = orphanMatchThreshold st"
  by (simp add: splitInputsIntoWords_def Let_def)

definition noOptions :: Options where
  "noOptions = \<lparr> blocksExpression = None, blockDiff = None \<rparr>"

text \<open>
  C10. The instance that the entry point \<open>diff\<close> builds has \<open>orphanMatchThreshold = 0\<close> for
  every options value, and it keeps it through tokenizing, block analysis and the choice
  of the granularity. On such an instance \<open>removeOrphans\<close> yields every match of its input
  whose matched new-side tokens have a positive total character length; a match it does
  not yield has only empty strings as matched tokens.
\<close>

theorem removeOrphans_threshold_zero:
  assumes "st = (splitInputsIntoWords splitter (diff_instance oldT newT options))
                  \<lparr> oldBlocks := ob, newBlocks := nb, matchGranularity := g \<rparr>"
    and "m \<in> set ms"
  shows "orphanMatchThreshold st = 0 \<and>
         (0 < matchedChars st m \<longrightarrow> Some m \<in> set (removeOrphans st ms)) \<and>
         (Some m \<notin> set (removeOrphans st ms) \<longrightarrow>
            (\<forall>w \<in> set (slice (int (startInNewM m)) (int (endInNewM m)) (newWords st)). w = []))"
proof -
  have t: "orphanMatchThreshold st = 0"
    by (simp add: assms(1) threshold_fields diff_instance_fields)
  have keep: "Some m \<in> set (removeOrphans st ms)" if "0 < matchedChars st m"
  proof (cases ms)
    case Nil
    with assms(2) show ?thesis by simp
  next
    case (Cons c rest)
    with removeOrphans_loop_keeps [OF t, of m c rest "Match_new 0 0 0"] assms(2) that
    have "m \<in> set (removeOrphans_loop st (Match_new 0 0 0) c rest)" by simp
    then show ?thesis by (simp add: Cons)
  qed
  have "\<forall>w \<in> set (slice (int (startInNewM m)) (int (endInNewM m)) (newWords st)). w = []"
    if "Some m \<notin> set (removeOrphans st ms)"
  proof -
    from that keep have "matchedChars st m = 0" by auto
    then show ?thesis by (simp add: matchedChars_def sumLength_zero_iff)
  qed
  with t keep show ?thesis by blast
qed


lemma threshold_example_chars:
  "matchedChars
     ((splitInputsIntoWords convertHtmlToListOfWords (diff_instance ''a b'' ''a c'' noOptions))
        \<lparr> oldBlocks := [], newBlocks := [], matchGranularity := 3 \<rparr>)
     (Match_new 0 0 2) = 2"
  by code_simp

theorem removeOrphans_threshold_zero_witness:
  "orphanMatchThreshold
     ((splitInputsIntoWords convertHtmlToListOfWords (diff_instance ''a b'' ''a c'' noOptions))
        \<lparr> oldBlocks := [], newBlocks := [], matchGranularity := 3 \<rparr>) = 0 \<and>
   Some (Match_new 0 0 2) \<in> set (removeOrphans
     ((splitInputsIntoWords convertHtmlToListOfWords (diff_instance ''a b'' ''a c'' noOptions))
        \<lparr> oldBlocks := [], newBlocks := [], matchGranularity := 3 \<rparr>)
     [Match_new 0 0 2, Match_new 3 3 0])"
  using removeOrphans_threshold_zero [where splitter = convertHtmlToListOfWords and oldT = "''a b''"
      and newT = "''a c''" and options = noOptions and ob = "[]" and nb = "[]" and g = 3
      and m = "Match_new 0 0 2" and ms = "[Match_new 0 0 2, Match_new 3 3 0]", OF refl]
  by (simp add: threshold_example_chars)






section \<open>More fuel does not change a result\<close>

lemma findMatchingBlocks_fuel_mono:
  "findMatchingBlocks f finder st so eo sn en acc = Some r \<Longrightarrow> f \<le> f' \<Longrightarrow>
   findMatchingBlocks f' finder st so eo sn en acc = Some r"
proof (induction f arbitrary: f' so eo sn en acc r)
  case 0
  then show ?case by simp
next
  case (Suc f)
  from Suc.prems(2) obtain g where g: "f' = Suc g" "f \<le> g" by (cases f') auto
  show ?case
  proof (cases "findMatch finder st so eo sn en")
    case None
    with Suc.prems(1) g show ?thesis by simp
  next
    case (Some m)
    let ?pre = "\<lambda>k. (if so < startInOldM m \<and> sn < startInNewM m
                 then findMatchingBlocks k finder st so (startInOldM m) sn (startInNewM m) acc
                 else Some acc)"
    from Suc.prems(1) Some obtain acc1 where pre: "?pre f = Some acc1"
      by (cases "?pre f") (auto split: if_splits)
    have pre': "?pre g = Some acc1"
      using pre Suc.IH [OF _ g(2)] by (auto split: if_splits)
    let ?post = "\<lambda>k. (if endInOldM m < eo \<and> endInNewM m < en
               then findMatchingBlocks k finder st (endInOldM m) eo (endInNewM m) en (acc1 @ [m])
               else Some (acc1 @ [m]))"
    from Suc.prems(1) Some pre have post: "?post f = Some r" by simp
    have post': "?post g = Some r"
      using post Suc.IH [OF _ g(2)] by (auto split: if_splits)
    from Some pre' post' g show ?thesis by simp
  qed
qed

lemma operations_fuel_mono:
  "operations f finder st = Some r \<Longrightarrow> f \<le> f' \<Longrightarrow> operations f' finder st = Some r"
  unfolding operations_def matchingBlocks_def
  by (auto split: option.splits dest: findMatchingBlocks_fuel_mono)

lemma diffOrdinary_fuel_mono:
  "fst (diffOrdinary f finder st) = Some r \<Longrightarrow> f \<le> f' \<Longrightarrow> fst (diffOrdinary f' finder st) = Some r"
  unfolding diffOrdinary_def Let_def
  by (auto split: option.splits dest: operations_fuel_mono)

lemma diffWordRanges_fuel_mono:
  "diffWordRanges f splitter finder ows nws = Some r \<Longrightarrow> f \<le> f' \<Longrightarrow>
   diffWordRanges f' splitter finder ows nws = Some r"
  unfolding diffWordRanges_def Let_def
  by (auto split: if_splits dest: diffOrdinary_fuel_mono)

lemma dwbtc_loop_fuel_mono:
  "dwbtc_loop f splitter finder st cs op np res = Some r \<Longrightarrow> f \<le> f' \<Longrightarrow>
   dwbtc_loop f' splitter finder st cs op np res = Some r"
proof (induction cs arbitrary: op np res r)
  case Nil
  then show ?case
    by (auto simp: Let_def split: if_splits option.splits dest: diffWordRanges_fuel_mono)
next
  case (Cons c cs)
  let ?before = "\<lambda>k. (if op < oldStart c \<or> np < newStart c
            then (let beforeOldWords = slice (int op) (int (oldStart c)) (oldWords st);
                      beforeNewWords = slice (int np) (int (newStart c)) (newWords st)
                  in if length beforeOldWords > 0 \<or> length beforeNewWords > 0
                     then (case diffWordRanges k splitter finder beforeOldWords beforeNewWords of
                             None \<Rightarrow> None
                           | Some beforeDiff \<Rightarrow> Some (res @ [beforeDiff]))
                     else Some res)
            else Some res)"
  from Cons.prems(1) obtain r1 where b: "?before f = Some r1"
    by (cases "?before f") simp_all
  have b': "?before f' = Some r1"
    using b Cons.prems(2)
    by (auto simp: Let_def split: if_splits option.splits dest: diffWordRanges_fuel_mono)
  from Cons.prems(1) b have
    "dwbtc_loop f splitter finder st cs (oldEnd c + 1) (newEnd c + 1)
       (r1 @ [delBlock (joinWords (slice (int (oldStart c)) (int (oldEnd c) + 1) (oldWords st))),
              insBlock (joinWords (slice (int (newStart c)) (int (newEnd c) + 1) (newWords st)))]) = Some r"
    by (simp add: Let_def)
  from Cons.IH [OF this Cons.prems(2)] b' show ?case by (simp add: Let_def)
qed

lemma HtmlDiff_diff_fuel_mono:
  "fst (HtmlDiff_diff f splitter finder st) = Some r \<Longrightarrow> f \<le> f' \<Longrightarrow>
   fst (HtmlDiff_diff f' splitter finder st) = Some r"
  unfolding HtmlDiff_diff_def diffWithBlockTypeChanges_def Let_def
  by (auto split: if_splits option.splits dest: diffOrdinary_fuel_mono dwbtc_loop_fuel_mono)

lemma diff_fuel_mono:
  "diff f splitter finder oldT newT options = Some r \<Longrightarrow> f \<le> f' \<Longrightarrow>
   diff f' splitter finder oldT newT options = Some r"
  unfolding diff_def by (rule HtmlDiff_diff_fuel_mono)

section \<open>The list-to-paragraph scenario\<close>

definition blockOptions :: Options where
  "blockOptions = \<lparr> blocksExpression = None,
                     blockDiff = Some \<lparr> enabled = True, blockElementsOpt = None, equivalentTypesOpt = None \<rparr> \<rparr>"

definition scenarioOld :: string where
  \<open>scenarioOld = ''<h2>Objective</h2><ul><li>Blood pressure 118/76 mmHg; heart rate 72 bpm.</li><li>Neurologic exam: Pupils equal and reactive.</li></ul><p>Ensure adequate hydulation.</p>''\<close>

definition scenarioNew :: string where
  \<open>scenarioNew = ''<h2>Objective</h2><p>Blood pressure 118/76 mmHg; heart rate 72 bpm. Neurologic exam: Pupils equal and reactive.</p><p>Ensure adequate hydration.</p>''\<close>

definition scenarioExpected :: string where
  \<open>scenarioExpected = ''<h2>Objective</h2><del class="diffdel"><ul><li>Blood pressure 118/76 mmHg; heart rate 72 bpm.</li><li>Neurologic exam: Pupils equal and reactive.</li></ul></del><ins class="diffins"><p>Blood pressure 118/76 mmHg; heart rate 72 bpm. Neurologic exam: Pupils equal and reactive.</p></ins><p>Ensure adequate <del class="diffmod">hydulation</del><ins class="diffmod">hydration</ins>.</p>''\<close>

lemma scenario_at_fuel_9:
  "diff 9 convertHtmlToListOfWords MatchFinder_findMatch scenarioOld scenarioNew blockOptions
     = Some scenarioExpected"
  by code_simp

text \<open>
  C3. On the heading, two-item list and paragraph against the heading, merged paragraph
  and corrected paragraph, \<open>diff\<close> with \<open>{blockDiff: {enabled: true}}\<close> returns exactly the
  expected string, for every fuel from 9 on: the heading unchanged, the whole list in one
  \<open>diffdel\<close> element, the replacing paragraph in one \<open>diffins\<close> element, and the last
  paragraph diffed word by word with a \<open>diffmod\<close> pair around hydulation and hydration.
\<close>

theorem scenario_exact_output:
  "9 \<le> fuel \<Longrightarrow>
   diff fuel convertHtmlToListOfWords MatchFinder_findMatch scenarioOld scenarioNew blockOptions
     = Some scenarioExpected"
  using scenario_at_fuel_9 by (rule diff_fuel_mono)

theorem scenario_exact_output_witness:
  "(9::nat) \<le> 12 \<and>
   diff 12 convertHtmlToListOfWords MatchFinder_findMatch scenarioOld scenarioNew blockOptions
     = Some scenarioExpected"
  using scenario_exact_output [of 12] by simp

section \<open>Block alignment: blocks, anchors, changes and segments\<close>

text \<open>
  The blocks of a token array of length \<open>n\<close> are well formed when each starts before it
  ends, ends inside the array, and ends before the next one starts.
\<close>

definition blocksWellFormed :: "nat \<Rightarrow> Block list \<Rightarrow> bool" where
  "blocksWellFormed n bs =
     ((\<forall>b \<in> set bs. startIndex b < endIndex b \<and> endIndex b < n) \<and>
      sorted_wrt (\<lambda>a b. endIndex a < startIndex b) bs)"

text \<open>
  The invariant of the loop of \<open>findBlocks\<close> before index \<open>i\<close>: the blocks found so far are
  well formed and end before \<open>i\<close>, the depth counter is the height of the stack, an open
  tag of depth 0 starts after every block found, and only the bottom of the stack can
  have depth 0.
\<close>

definition analysisInvariant :: "nat \<Rightarrow> Block list \<times> OpenTag list \<times> int \<Rightarrow> bool" where
  "analysisInvariant i s =
     (case s of (blocks, stack, currentDepth) \<Rightarrow>
        blocksWellFormed i blocks \<and>
        currentDepth = int (length stack) \<and>
        (\<forall>e \<in> set stack. openStartIndex e < i \<and>
           (openDepth e = 0 \<longrightarrow> (\<forall>b \<in> set blocks. endIndex b < openStartIndex e))) \<and>
        (\<forall>e \<in> set (tl stack). openDepth e \<noteq> 0))"

lemma findOpening_bound: "findOpening stack name n = Some j \<Longrightarrow> j < n"
  by (induction n) (auto split: if_splits)

lemma blocksWellFormed_mono: "blocksWellFormed n bs \<Longrightarrow> n \<le> m \<Longrightarrow> blocksWellFormed m bs"
  by (fastforce simp: blocksWellFormed_def)

lemma blocksWellFormed_snoc:
  assumes "blocksWellFormed i bs" "s < i" "\<forall>b \<in> set bs. endIndex b < s"
  shows "blocksWellFormed (Suc i) (bs @ [\<lparr> tagName = t, startIndex = s, endIndex = i, depth = d \<rparr>])"
  using assms by (auto simp: blocksWellFormed_def sorted_wrt_append less_Suc_eq)

lemma set_remove_nth: "set (take j xs @ drop (Suc j) xs) \<subseteq> set xs"
  by (auto dest: in_set_takeD in_set_dropD)

lemma tl_remove_nth: "set (tl (take j xs @ drop (Suc j) xs)) \<subseteq> set (tl xs)"
proof (cases xs)
  case Nil
  then show ?thesis by simp
next
  case (Cons x xs')
  show ?thesis
  proof (cases j)
    case 0
    with Cons show ?thesis by (cases xs') auto
  next
    case (Suc j')
    with Cons show ?thesis using set_remove_nth [of j' xs'] by auto
  qed
qed

lemma depth_zero_is_bottom:
  assumes "\<forall>e \<in> set (tl stack). openDepth e \<noteq> 0" "j < length stack" "openDepth (stack ! j) = 0"
  shows "j = 0"
proof (rule ccontr)
  assume "j \<noteq> 0"
  then obtain j' where "j = Suc j'" by (cases j) auto
  with assms(2) have "stack ! j \<in> set (tl stack)"
    by (cases stack) auto
  with assms(1,3) show False by blast
qed

lemma findBlocks_step_invariant:
  assumes "analysisInvariant i s"
  shows "analysisInvariant (Suc i) (findBlocks_step ba s i word)"
proof -
  obtain blocks stack d where s: "s = (blocks, stack, d)" by (cases s)
  from assms s have wf: "blocksWellFormed i blocks" and d: "d = int (length stack)"
    and st: "\<forall>e \<in> set stack. openStartIndex e < i \<and>
           (openDepth e = 0 \<longrightarrow> (\<forall>b \<in> set blocks. endIndex b < openStartIndex e))"
    and tl: "\<forall>e \<in> set (tl stack). openDepth e \<noteq> 0"
    by (simp_all add: analysisInvariant_def)
  have keep: "analysisInvariant (Suc i) s"
    using wf d st tl s blocksWellFormed_mono [of i blocks "Suc i"]
    by (auto simp: analysisInvariant_def less_Suc_eq)
  have push: "analysisInvariant (Suc i)
      (blocks, stack @ [\<lparr> openTagName = name, openStartIndex = i, openDepth = d \<rparr>], d + 1)" for name
  proof -
    have "\<forall>b \<in> set blocks. endIndex b < i" using wf by (simp add: blocksWellFormed_def)
    moreover have "\<forall>e \<in> set (tl (stack @ [\<lparr> openTagName = name, openStartIndex = i, openDepth = d \<rparr>])). openDepth e \<noteq> 0"
      using tl d by (cases stack) auto
    ultimately show ?thesis
      using wf d st blocksWellFormed_mono [of i blocks "Suc i"]
      by (auto simp: analysisInvariant_def less_Suc_eq)
  qed
  have close: "analysisInvariant (Suc i)
      (let openingTag = stack ! j;
           stack' = take j stack @ drop (Suc j) stack;
           currentDepth' = d - 1
       in if openDepth openingTag = 0
          then (blocks @ [\<lparr> tagName = openTagName openingTag,
                            startIndex = openStartIndex openingTag,
                            endIndex = i,
                            depth = openDepth openingTag \<rparr>],
                stack', currentDepth')
          else (blocks, stack', currentDepth'))"
    if j: "j < length stack" for j
  proof -
    let ?stack' = "take j stack @ drop (Suc j) stack"
    have len: "int (length ?stack') = d - 1" using j d by (simp add: min_def)
    have sub: "set ?stack' \<subseteq> set stack" by (rule set_remove_nth)
    have tl': "\<forall>e \<in> set (tl ?stack'). openDepth e \<noteq> 0"
      using tl tl_remove_nth [of j stack] by blast
    have mem: "stack ! j \<in> set stack" using j by simp
    show ?thesis
    proof (cases "openDepth (stack ! j) = 0")
      case False
      then show ?thesis
        using wf len st tl' sub blocksWellFormed_mono [of i blocks "Suc i"]
        by (auto simp: analysisInvariant_def Let_def less_Suc_eq)
    next
      case True
      from depth_zero_is_bottom [OF tl j True] have j0: "j = 0" .
      then have stack': "?stack' = tl stack" by (simp add: drop_Suc)
      from st mem True have before: "\<forall>b \<in> set blocks. endIndex b < openStartIndex (stack ! j)"
        and lt: "openStartIndex (stack ! j) < i" by auto
      have wf': "blocksWellFormed (Suc i)
          (blocks @ [\<lparr> tagName = openTagName (stack ! j), startIndex = openStartIndex (stack ! j),
                       endIndex = i, depth = openDepth (stack ! j) \<rparr>])"
        using blocksWellFormed_snoc [OF wf lt before] .
      have rest: "\<forall>e \<in> set ?stack'. openStartIndex e < Suc i \<and> openDepth e \<noteq> 0"
        using st tl unfolding stack' by (cases stack) (auto simp: less_Suc_eq)
      show ?thesis
        using True wf' len rest tl'
        by (auto simp: analysisInvariant_def Let_def)
    qed
  qed
  show ?thesis
    unfolding s findBlocks_step_def
    using keep [unfolded s] push close findOpening_bound [of stack _ "length stack"]
    by (auto simp: Let_def split: option.splits simp del: One_nat_def)
qed

lemma findBlocks_loop_invariant:
  "analysisInvariant i s \<Longrightarrow> analysisInvariant (i + length ws) (findBlocks_loop ba ws i s)"
proof (induction ws arbitrary: i s)
  case Nil
  then show ?case by simp
next
  case (Cons w ws)
  from Cons.IH [OF findBlocks_step_invariant [OF Cons.prems]] show ?case by simp
qed

lemma blocksWellFormed_sorted:
  "blocksWellFormed n bs \<Longrightarrow> sorted (map startIndex bs)"
proof (induction bs)
  case Nil
  then show ?case by simp
next
  case (Cons b bs)
  then have "blocksWellFormed n bs" by (simp add: blocksWellFormed_def)
  with Cons.IH have "sorted (map startIndex bs)" by simp
  moreover have "\<forall>c \<in> set bs. startIndex b \<le> startIndex c"
    using Cons.prems by (fastforce simp: blocksWellFormed_def)
  ultimately show ?case by simp
qed

lemma findBlocks_wellFormed: "blocksWellFormed (length ws) (findBlocks ba ws)"
proof -
  have "analysisInvariant 0 ([], [], 0)"
    by (simp add: analysisInvariant_def blocksWellFormed_def)
  from findBlocks_loop_invariant [OF this, of ws ba]
  have wf: "blocksWellFormed (length ws) (fst (findBlocks_loop ba ws 0 ([], [], 0)))"
    by (cases "findBlocks_loop ba ws 0 ([], [], 0)") (simp add: analysisInvariant_def)
  from blocksWellFormed_sorted [OF this]
  have "sort_key startIndex (fst (findBlocks_loop ba ws 0 ([], [], 0))) =
          fst (findBlocks_loop ba ws 0 ([], [], 0))"
    by (rule sort_key_id_if_sorted)
  with wf show ?thesis by (simp add: findBlocks_def)
qed

text \<open>Anchors form a chain: strictly increasing in the old and in the new block index.\<close>

definition anchorsIncreasing :: "Anchor list \<Rightarrow> bool" where
  "anchorsIncreasing as = sorted_wrt (\<lambda>a b. oldIndex a < oldIndex b \<and> newIndex a < newIndex b) as"

lemma backtrack_stop:
  "\<not> (i < oldCount \<and> j < newCount) \<Longrightarrow> backtrack score dp oldCount newCount i j = []"
  by (subst backtrack.simps) (simp only: if_False)

lemma backtrack_bounds:
  "a \<in> set (backtrack score dp oldCount newCount i j) \<Longrightarrow>
     int i \<le> oldIndex a \<and> oldIndex a < int oldCount \<and> int j \<le> newIndex a \<and> newIndex a < int newCount"
proof (induction score dp oldCount newCount i j rule: backtrack.induct)
  case (1 score dp oldCount newCount i j)
  show ?case
  proof (cases "i < oldCount \<and> j < newCount")
    case False
    with "1.prems" show ?thesis by (simp add: backtrack_stop)
  next
    case True
    note inb = True
    show ?thesis
    proof (cases "score i j > 0 \<and> dp ! i ! j = dp ! (i + 1) ! (j + 1) + score i j")
      case True
      with inb "1.prems" have "a = \<lparr> oldIndex = int i, newIndex = int j \<rparr> \<or>
          a \<in> set (backtrack score dp oldCount newCount (i + 1) (j + 1))"
        by (subst (asm) backtrack.simps) (simp add: Let_def)
      then show ?thesis
      proof
        assume "a = \<lparr> oldIndex = int i, newIndex = int j \<rparr>"
        with inb show ?thesis by simp
      next
        assume "a \<in> set (backtrack score dp oldCount newCount (i + 1) (j + 1))"
        from "1.IH"(1) [OF inb refl True this] show ?thesis by simp
      qed
    next
      case False
      note nt = False
      show ?thesis
      proof (cases "dp ! (i + 1) ! j \<ge> dp ! i ! (j + 1)")
        case True
        with inb nt "1.prems" have "a \<in> set (backtrack score dp oldCount newCount (i + 1) j)"
          by (subst (asm) backtrack.simps) (auto simp: Let_def)
        from "1.IH"(2) [OF inb refl nt True this] show ?thesis by simp
      next
        case False
        with inb nt "1.prems" have "a \<in> set (backtrack score dp oldCount newCount i (j + 1))"
          by (subst (asm) backtrack.simps) (auto simp: Let_def)
        from "1.IH"(3) [OF inb refl nt False this] show ?thesis by simp
      qed
    qed
  qed
qed

lemma backtrack_increasing:
  "anchorsIncreasing (backtrack score dp oldCount newCount i j)"
proof (induction score dp oldCount newCount i j rule: backtrack.induct)
  case (1 score dp oldCount newCount i j)
  show ?case
  proof (cases "i < oldCount \<and> j < newCount")
    case False
    then show ?thesis by (simp add: backtrack_stop anchorsIncreasing_def)
  next
    case True
    note inb = True
    show ?thesis
    proof (cases "score i j > 0 \<and> dp ! i ! j = dp ! (i + 1) ! (j + 1) + score i j")
      case True
      have eq: "backtrack score dp oldCount newCount i j =
          \<lparr> oldIndex = int i, newIndex = int j \<rparr> # backtrack score dp oldCount newCount (i + 1) (j + 1)"
        using inb True by (subst backtrack.simps) (simp add: Let_def)
      have "\<forall>a \<in> set (backtrack score dp oldCount newCount (i + 1) (j + 1)).
              int i < oldIndex a \<and> int j < newIndex a"
        using backtrack_bounds [of _ score dp oldCount newCount "i + 1" "j + 1"] by fastforce
      with "1.IH"(1) [OF inb refl True] show ?thesis
        unfolding eq anchorsIncreasing_def by simp
    next
      case False
      note nt = False
      show ?thesis
      proof (cases "dp ! (i + 1) ! j \<ge> dp ! i ! (j + 1)")
        case True
        have eq: "backtrack score dp oldCount newCount i j = backtrack score dp oldCount newCount (i + 1) j"
          using inb nt True by (subst backtrack.simps) (auto simp: Let_def)
        from "1.IH"(2) [OF inb refl nt True] show ?thesis unfolding eq .
      next
        case False
        have eq: "backtrack score dp oldCount newCount i j = backtrack score dp oldCount newCount i (j + 1)"
          using inb nt False by (subst backtrack.simps) (auto simp: Let_def)
        from "1.IH"(3) [OF inb refl nt False] show ?thesis unfolding eq .
      qed
    qed
  qed
qed

lemma matchBlocks_increasing: "anchorsIncreasing (matchBlocksByTypeSimilarity st)"
  using backtrack_increasing
  by (cases "blockAnalyzer st")
     (simp_all add: matchBlocksByTypeSimilarity_def Let_def anchorsIncreasing_def)

lemma matchBlocks_bounds:
  "a \<in> set (matchBlocksByTypeSimilarity st) \<Longrightarrow>
     0 \<le> oldIndex a \<and> oldIndex a < int (length (oldBlocks st)) \<and>
     0 \<le> newIndex a \<and> newIndex a < int (length (newBlocks st))"
  using backtrack_bounds [of a _ _ "length (oldBlocks st)" "length (newBlocks st)" 0 0]
  by (cases "blockAnalyzer st") (auto simp: matchBlocksByTypeSimilarity_def Let_def)

lemma slice_nonneg:
  "0 \<le> s \<Longrightarrow> 0 \<le> e \<Longrightarrow> slice s e xs = take (nat e - nat s) (drop (nat s) xs)"
  using slice_nat [of "nat s" "nat e" xs] by simp

lemma range_ends:
  assumes "ys = take (B - A) (drop A xs)" "ys \<noteq> []"
  shows "A < B \<and> A + length ys \<le> B \<and> A + length ys \<le> length xs \<and>
         ys ! 0 = xs ! A \<and> ys ! (length ys - 1) = xs ! (A + length ys - 1)"
proof -
  from assms have ab: "A < B" "A < length xs" by (auto simp: not_less)
  have len: "length ys = min (B - A) (length xs - A)" using assms(1) by simp
  with ab have pos: "0 < length ys" by simp
  have "ys ! 0 = xs ! A" using assms(1) ab pos by simp
  moreover have "ys ! (length ys - 1) = xs ! (A + (length ys - 1))"
    using assms(1) ab pos len by (simp add: min_def split: if_splits)
  ultimately show ?thesis using ab len pos by (auto simp: min_def split: if_splits)
qed

text \<open>A change spans blocks p..q of old and p'..q' of new, strictly between two anchors.\<close>

definition changeBetween :: "HtmlDiff \<Rightarrow> Anchor \<Rightarrow> Anchor \<Rightarrow> BlockChange \<Rightarrow> bool" where
  "changeBetween st a b c =
     (\<exists>p q p' q'.
        oldIndex a < int p \<and> p \<le> q \<and> int q < oldIndex b \<and> q < length (oldBlocks st) \<and>
        oldStart c = startIndex (oldBlocks st ! p) \<and> oldEnd c = endIndex (oldBlocks st ! q) \<and>
        newIndex a < int p' \<and> p' \<le> q' \<and> int q' < newIndex b \<and> q' < length (newBlocks st) \<and>
        newStart c = startIndex (newBlocks st ! p') \<and> newEnd c = endIndex (newBlocks st ! q'))"

lemma gapChange_between:
  assumes "c \<in> set (gapChange ba st a b)"
    and "- 1 \<le> oldIndex a" "0 \<le> oldIndex b" "- 1 \<le> newIndex a" "0 \<le> newIndex b"
  shows "changeBetween st a b c"
proof -
  define A where "A = nat (oldIndex a + 1)"
  define B where "B = nat (oldIndex b)"
  define A' where "A' = nat (newIndex a + 1)"
  define B' where "B' = nat (newIndex b)"
  define oldRange where "oldRange = slice (oldIndex a + 1) (oldIndex b) (oldBlocks st)"
  define newRange where "newRange = slice (newIndex a + 1) (newIndex b) (newBlocks st)"
  have o: "oldRange = take (B - A) (drop A (oldBlocks st))"
    unfolding oldRange_def A_def B_def using assms(2,3) by (intro slice_nonneg) simp_all
  have n: "newRange = take (B' - A') (drop A' (newBlocks st))"
    unfolding newRange_def A'_def B'_def using assms(4,5) by (intro slice_nonneg) simp_all
  from assms(1) have ne: "oldRange \<noteq> []" "newRange \<noteq> []"
    and c: "c = \<lparr> oldStart = startIndex (oldRange ! 0),
                   oldEnd = endIndex (oldRange ! (length oldRange - 1)),
                   newStart = startIndex (newRange ! 0),
                   newEnd = endIndex (newRange ! (length newRange - 1)) \<rparr>"
    by (auto simp: gapChange_def Let_def oldRange_def newRange_def split: if_splits)
  note ro = range_ends [OF o ne(1)] and rn = range_ends [OF n ne(2)]
  have lo: "0 < length oldRange" "0 < length newRange" using ne by simp_all
  show ?thesis
    unfolding changeBetween_def
  proof (intro exI conjI)
    show "oldIndex a < int A" using assms(2) by (simp add: A_def)
    show "A \<le> A + length oldRange - 1" using lo by arith
    show "int (A + length oldRange - 1) < oldIndex b" using ro lo assms(3) unfolding B_def by linarith
    show "A + length oldRange - 1 < length (oldBlocks st)" using ro lo by linarith
    show "oldStart c = startIndex (oldBlocks st ! A)" using c ro by simp
    show "oldEnd c = endIndex (oldBlocks st ! (A + length oldRange - 1))" using c ro by simp
    show "newIndex a < int A'" using assms(4) by (simp add: A'_def)
    show "A' \<le> A' + length newRange - 1" using lo by arith
    show "int (A' + length newRange - 1) < newIndex b" using rn lo assms(5) unfolding B'_def by linarith
    show "A' + length newRange - 1 < length (newBlocks st)" using rn lo by linarith
    show "newStart c = startIndex (newBlocks st ! A')" using c rn by simp
    show "newEnd c = endIndex (newBlocks st ! (A' + length newRange - 1))" using c rn by simp
  qed
qed

lemma changeBetween_widen:
  assumes "changeBetween st a b c" "oldIndex a' \<le> oldIndex a" "newIndex a' \<le> newIndex a"
    "oldIndex b \<le> oldIndex b'" "newIndex b \<le> newIndex b'"
  shows "changeBetween st a' b' c"
proof -
  from assms(1) obtain p q p' q' where h:
    "oldIndex a < int p" "p \<le> q" "int q < oldIndex b" "q < length (oldBlocks st)"
    "oldStart c = startIndex (oldBlocks st ! p)" "oldEnd c = endIndex (oldBlocks st ! q)"
    "newIndex a < int p'" "p' \<le> q'" "int q' < newIndex b" "q' < length (newBlocks st)"
    "newStart c = startIndex (newBlocks st ! p')" "newEnd c = endIndex (newBlocks st ! q')"
    unfolding changeBetween_def by blast
  have "oldIndex a' < int p" "int q < oldIndex b'" "newIndex a' < int p'" "int q' < newIndex b'"
    using h assms(2-5) by linarith+
  with h show ?thesis unfolding changeBetween_def by blast
qed

lemma wellFormed_order:
  assumes "blocksWellFormed n bs" "q < p" "p < length bs"
  shows "endIndex (bs ! q) < startIndex (bs ! p)"
proof -
  from assms(1) have "sorted_wrt (\<lambda>a b. endIndex a < startIndex b) bs"
    by (simp add: blocksWellFormed_def)
  from sorted_wrt_nth_less [OF this assms(2,3)] show ?thesis .
qed

lemma wellFormed_span:
  assumes "blocksWellFormed n bs" "p \<le> q" "q < length bs"
  shows "startIndex (bs ! p) < endIndex (bs ! q) \<and> endIndex (bs ! q) < n"
proof -
  have q: "startIndex (bs ! q) < endIndex (bs ! q)" "endIndex (bs ! q) < n"
    using assms by (simp_all add: blocksWellFormed_def)
  show ?thesis
  proof (cases "p = q")
    case True
    with q show ?thesis by simp
  next
    case False
    with assms have "p < q" by simp
    from wellFormed_order [OF assms(1) this assms(3)] have "endIndex (bs ! p) < startIndex (bs ! q)" .
    moreover have "startIndex (bs ! p) < endIndex (bs ! p)"
      using assms by (simp add: blocksWellFormed_def)
    ultimately show ?thesis using q by simp
  qed
qed

lemma anchorsIncreasing_last:
  "anchorsIncreasing (a # as) \<Longrightarrow>
     oldIndex a \<le> oldIndex (last (a # as)) \<and> newIndex a \<le> newIndex (last (a # as))"
proof (induction as arbitrary: a)
  case Nil
  then show ?case by simp
next
  case (Cons b as)
  from Cons.prems have "anchorsIncreasing (b # as)" "oldIndex a < oldIndex b" "newIndex a < newIndex b"
    by (simp_all add: anchorsIncreasing_def)
  with Cons.IH [of b] show ?case by simp
qed

lemma anchorsIncreasing_tl: "anchorsIncreasing (a # as) \<Longrightarrow> anchorsIncreasing as"
  by (simp add: anchorsIncreasing_def)

lemma detect_loop_between:
  assumes "anchorsIncreasing (a # as)" "- 1 \<le> oldIndex a" "- 1 \<le> newIndex a"
    and "c \<in> set (detect_loop ba st (a # as))"
  shows "changeBetween st a (last (a # as)) c"
  using assms
proof (induction as arbitrary: a)
  case Nil
  then show ?case by simp
next
  case (Cons b as)
  from Cons.prems(1) have inc: "anchorsIncreasing (b # as)" and lt: "oldIndex a < oldIndex b" "newIndex a < newIndex b"
    by (simp_all add: anchorsIncreasing_def)
  from lt Cons.prems(2,3) have b0: "0 \<le> oldIndex b" "0 \<le> newIndex b" by simp_all
  note lastb = anchorsIncreasing_last [OF inc]
  from Cons.prems(4) have "c \<in> set (gapChange ba st a b) \<or> c \<in> set (detect_loop ba st (b # as))"
    by simp
  then show ?case
  proof
    assume "c \<in> set (gapChange ba st a b)"
    from gapChange_between [OF this Cons.prems(2) b0(1) Cons.prems(3) b0(2)]
    have "changeBetween st a b c" .
    from changeBetween_widen [OF this _ _ lastb [THEN conjunct1] lastb [THEN conjunct2]]
    show ?thesis by simp
  next
    assume "c \<in> set (detect_loop ba st (b # as))"
    from Cons.IH [OF inc _ _ this] b0 have "changeBetween st b (last (b # as)) c" by simp
    from changeBetween_widen [OF this, of a "last (b # as)"] lt show ?thesis by simp
  qed
qed

text \<open>Change ranges are ascending and disjoint: each ends, on both sides, before the next starts.\<close>

definition changesAscending :: "BlockChange list \<Rightarrow> bool" where
  "changesAscending cs = sorted_wrt (\<lambda>c d. oldEnd c < oldStart d \<and> newEnd c < newStart d) cs"

lemma gapChange_short: "gapChange ba st a b = [] \<or> (\<exists>c. gapChange ba st a b = [c])"
  by (simp add: gapChange_def Let_def)

lemma detect_loop_ascending:
  assumes "blocksWellFormed n (oldBlocks st)" "blocksWellFormed m (newBlocks st)"
    and "anchorsIncreasing (a # as)" "- 1 \<le> oldIndex a" "- 1 \<le> newIndex a"
  shows "changesAscending (detect_loop ba st (a # as))"
  using assms(3-5)
proof (induction as arbitrary: a)
  case Nil
  then show ?case by (simp add: changesAscending_def)
next
  case (Cons b as)
  from Cons.prems(1) have inc: "anchorsIncreasing (b # as)" and lt: "oldIndex a < oldIndex b" "newIndex a < newIndex b"
    by (simp_all add: anchorsIncreasing_def)
  from lt Cons.prems(2,3) have b0: "0 \<le> oldIndex b" "0 \<le> newIndex b" by simp_all
  have IH: "changesAscending (detect_loop ba st (b # as))"
    using Cons.IH [OF inc] b0 by simp
  have cross: "oldEnd c < oldStart d \<and> newEnd c < newStart d"
    if c: "c \<in> set (gapChange ba st a b)" and d: "d \<in> set (detect_loop ba st (b # as))" for c d
  proof -
    from gapChange_between [OF c Cons.prems(2) b0(1) Cons.prems(3) b0(2)]
    obtain p q p' q' where cq: "int q < oldIndex b" "oldEnd c = endIndex (oldBlocks st ! q)"
      "int q' < newIndex b" "newEnd c = endIndex (newBlocks st ! q')"
      unfolding changeBetween_def by blast
    from detect_loop_between [OF inc _ _ d] b0
    obtain r s r' s' where dr: "oldIndex b < int r" "r \<le> s" "s < length (oldBlocks st)"
      "oldStart d = startIndex (oldBlocks st ! r)"
      "newIndex b < int r'" "r' \<le> s'" "s' < length (newBlocks st)"
      "newStart d = startIndex (newBlocks st ! r')"
      unfolding changeBetween_def by auto
    have "q < r" "r < length (oldBlocks st)" "q' < r'" "r' < length (newBlocks st)"
      using cq dr by linarith+
    with wellFormed_order [OF assms(1), of q r] wellFormed_order [OF assms(2), of q' r'] cq dr
    show ?thesis by simp
  qed
  from gapChange_short [of ba st a b] show ?case
  proof
    assume "gapChange ba st a b = []"
    with IH show ?thesis by simp
  next
    assume "\<exists>c. gapChange ba st a b = [c]"
    then obtain c where c: "gapChange ba st a b = [c]" ..
    with cross IH show ?thesis by (simp add: changesAscending_def)
  qed
qed

lemma changeBetween_within:
  assumes "blocksWellFormed n (oldBlocks st)" "blocksWellFormed m (newBlocks st)"
    and "changeBetween st a b c"
  shows "oldStart c < oldEnd c \<and> oldEnd c < n \<and> newStart c < newEnd c \<and> newEnd c < m"
proof -
  from assms(3) obtain p q p' q' where h:
    "p \<le> q" "q < length (oldBlocks st)"
    "oldStart c = startIndex (oldBlocks st ! p)" "oldEnd c = endIndex (oldBlocks st ! q)"
    "p' \<le> q'" "q' < length (newBlocks st)"
    "newStart c = startIndex (newBlocks st ! p')" "newEnd c = endIndex (newBlocks st ! q')"
    unfolding changeBetween_def by blast
  from wellFormed_span [OF assms(1) h(1,2)] wellFormed_span [OF assms(2) h(5,6)] h
  show ?thesis by simp
qed

text \<open>The list \<open>anchoredMatches\<close> of \<open>detectBlockTypeChanges\<close>: the anchors between the two sentinels.\<close>

definition anchoredMatchesOf :: "HtmlDiff \<Rightarrow> Anchor list" where
  "anchoredMatchesOf st =
     [\<lparr> oldIndex = - 1, newIndex = - 1 \<rparr>] @ matchBlocksByTypeSimilarity st @
     [\<lparr> oldIndex = int (length (oldBlocks st)), newIndex = int (length (newBlocks st)) \<rparr>]"

lemma anchored_increasing:
  "anchorsIncreasing (\<lparr> oldIndex = - 1, newIndex = - 1 \<rparr> # matchBlocksByTypeSimilarity st @
     [\<lparr> oldIndex = int (length (oldBlocks st)), newIndex = int (length (newBlocks st)) \<rparr>])"
  using matchBlocks_increasing [of st] matchBlocks_bounds [of _ st]
  by (fastforce simp: anchorsIncreasing_def sorted_wrt_append)

lemma detect_ascending:
  assumes "blocksWellFormed n (oldBlocks st)" "blocksWellFormed m (newBlocks st)"
  shows "changesAscending (detectBlockTypeChanges st)"
proof (cases "blockAnalyzer st")
  case None
  then show ?thesis by (simp add: detectBlockTypeChanges_def changesAscending_def)
next
  case (Some ba)
  from detect_loop_ascending [OF assms anchored_increasing, of ba] Some
  show ?thesis by (simp add: detectBlockTypeChanges_def Let_def)
qed

lemma detect_within:
  assumes "blocksWellFormed n (oldBlocks st)" "blocksWellFormed m (newBlocks st)"
    and "c \<in> set (detectBlockTypeChanges st)"
  shows "oldStart c < oldEnd c \<and> oldEnd c < n \<and> newStart c < newEnd c \<and> newEnd c < m"
proof (cases "blockAnalyzer st")
  case None
  with assms(3) show ?thesis by (simp add: detectBlockTypeChanges_def)
next
  case (Some ba)
  with assms(3) have "c \<in> set (detect_loop ba st
      (\<lparr> oldIndex = - 1, newIndex = - 1 \<rparr> # matchBlocksByTypeSimilarity st @
       [\<lparr> oldIndex = int (length (oldBlocks st)), newIndex = int (length (newBlocks st)) \<rparr>]))"
    by (simp add: detectBlockTypeChanges_def Let_def)
  from detect_loop_between [OF anchored_increasing _ _ this]
  have "changeBetween st \<lparr> oldIndex = - 1, newIndex = - 1 \<rparr>
          (last (\<lparr> oldIndex = - 1, newIndex = - 1 \<rparr> # matchBlocksByTypeSimilarity st @
       [\<lparr> oldIndex = int (length (oldBlocks st)), newIndex = int (length (newBlocks st)) \<rparr>])) c"
    by simp
  from changeBetween_within [OF assms(1,2) this] show ?thesis .
qed

text \<open>
  The output segments of \<open>diffWithBlockTypeChanges\<close>, with their old and new token ranges
  \<open>[from, to)\<close>: a sub-diff of the words before a change or after the last one, or the
  del/ins pair of a change.
\<close>

datatype Segment = WordDiff nat nat nat nat | BlockSpan nat nat nat nat

fun segmentOld :: "Segment \<Rightarrow> nat \<times> nat" where
  "segmentOld (WordDiff a b c d) = (a, b)"
| "segmentOld (BlockSpan a b c d) = (a, b)"

fun segmentNew :: "Segment \<Rightarrow> nat \<times> nat" where
  "segmentNew (WordDiff a b c d) = (c, d)"
| "segmentNew (BlockSpan a b c d) = (c, d)"

fun segmentsOf :: "BlockChange list \<Rightarrow> nat \<Rightarrow> nat \<Rightarrow> nat \<Rightarrow> nat \<Rightarrow> Segment list" where
  "segmentsOf [] oldPos newPos oldLen newLen =
     (if oldPos < oldLen \<or> newPos < newLen then [WordDiff oldPos oldLen newPos newLen] else [])"
| "segmentsOf (c # cs) oldPos newPos oldLen newLen =
     (if oldPos < oldStart c \<or> newPos < newStart c
      then [WordDiff oldPos (oldStart c) newPos (newStart c)] else []) @
     [BlockSpan (oldStart c) (oldEnd c + 1) (newStart c) (newEnd c + 1)] @
     segmentsOf cs (oldEnd c + 1) (newEnd c + 1) oldLen newLen"

fun renderSegment ::
  "nat \<Rightarrow> WordSplitter \<Rightarrow> MatchFinder \<Rightarrow> HtmlDiff \<Rightarrow> Segment \<Rightarrow> string list option" where
  "renderSegment fuel splitter finder st (WordDiff a b c d) =
     (let ows = slice (int a) (int b) (oldWords st);
          nws = slice (int c) (int d) (newWords st)
      in if length ows > 0 \<or> length nws > 0
         then map_option (\<lambda>x. [x]) (diffWordRanges fuel splitter finder ows nws)
         else Some [])"
| "renderSegment fuel splitter finder st (BlockSpan a b c d) =
     Some [delBlock (joinWords (slice (int a) (int b) (oldWords st))),
           insBlock (joinWords (slice (int c) (int d) (newWords st)))]"

fun renderSegments ::
  "nat \<Rightarrow> WordSplitter \<Rightarrow> MatchFinder \<Rightarrow> HtmlDiff \<Rightarrow> Segment list \<Rightarrow> string list option" where
  "renderSegments fuel splitter finder st [] = Some []"
| "renderSegments fuel splitter finder st (s # ss) =
     (case renderSegment fuel splitter finder st s of
        None \<Rightarrow> None
      | Some x \<Rightarrow> map_option (\<lambda>r. x @ r) (renderSegments fuel splitter finder st ss))"

lemma dwbtc_loop_segments:
  "dwbtc_loop fuel splitter finder st cs oldPos newPos res =
     map_option (\<lambda>r. res @ r)
       (renderSegments fuel splitter finder st
          (segmentsOf cs oldPos newPos (length (oldWords st)) (length (newWords st))))"
proof (induction cs arbitrary: oldPos newPos res)
  case Nil
  show ?case
    by (simp add: Let_def sliceFrom_def split: option.splits)
next
  case (Cons c cs)
  show ?case
    by (simp add: Let_def Cons.IH option.map_comp comp_def add.commute split: option.splits)
qed

lemma segments_tile:
  assumes "changesAscending cs"
    and "\<forall>c \<in> set cs. oldPos \<le> oldStart c \<and> oldStart c \<le> oldEnd c \<and> oldEnd c < oldLen \<and>
                       newPos \<le> newStart c \<and> newStart c \<le> newEnd c \<and> newEnd c < newLen"
    and "oldPos \<le> oldLen" "newPos \<le> newLen"
  shows "tiles oldPos oldLen (map segmentOld (segmentsOf cs oldPos newPos oldLen newLen)) \<and>
         tiles newPos newLen (map segmentNew (segmentsOf cs oldPos newPos oldLen newLen))"
  using assms
proof (induction cs arbitrary: oldPos newPos)
  case Nil
  then show ?case by auto
next
  case (Cons c cs)
  from Cons.prems(1) have asc: "changesAscending cs"
    and after: "\<forall>d \<in> set cs. oldEnd c < oldStart d \<and> newEnd c < newStart d"
    by (simp_all add: changesAscending_def)
  from Cons.prems(2) have c: "oldPos \<le> oldStart c" "oldStart c \<le> oldEnd c" "oldEnd c < oldLen"
    "newPos \<le> newStart c" "newStart c \<le> newEnd c" "newEnd c < newLen" by simp_all
  have rest: "\<forall>d \<in> set cs. oldEnd c + 1 \<le> oldStart d \<and> oldStart d \<le> oldEnd d \<and> oldEnd d < oldLen \<and>
                       newEnd c + 1 \<le> newStart d \<and> newStart d \<le> newEnd d \<and> newEnd d < newLen"
    using Cons.prems(2) after by auto
  have "oldEnd c + 1 \<le> oldLen" "newEnd c + 1 \<le> newLen" using c by simp_all
  from Cons.IH [OF asc rest this]
  have IH: "tiles (oldEnd c + 1) oldLen (map segmentOld (segmentsOf cs (oldEnd c + 1) (newEnd c + 1) oldLen newLen))"
    "tiles (newEnd c + 1) newLen (map segmentNew (segmentsOf cs (oldEnd c + 1) (newEnd c + 1) oldLen newLen))"
    by simp_all
  show ?case using c IH by auto
qed

lemma operations_returns:
  assumes "finderInWindow finder" "length (oldWords st) < fuel"
  shows "operations fuel finder st \<noteq> None"
proof -
  from findMatchingBlocks_ordered [OF assms(1), of 0 "length (oldWords st)" 0 "length (newWords st)" fuel st "[]"]
    assms(2)
  obtain ms where ms: "matchingBlocks fuel finder st = Some ms"
    by (auto simp: matchingBlocks_def)
  from removeOrphans_those [of "ms @ [Match_new (length (oldWords st)) (length (newWords st)) 0]" st 0 0 0 0]
  obtain kept where "those (removeOrphans st (ms @ [Match_new (length (oldWords st)) (length (newWords st)) 0]))
      = Some kept"
    by auto
  with ms show ?thesis by (simp add: operations_def Let_def)
qed

lemma diffWordRanges_returns:
  assumes "finderInWindow finder" "length (splitter (joinWords ows) []) < fuel"
  shows "diffWordRanges fuel splitter finder ows nws \<noteq> None"
proof -
  let ?sub = "splitInputsIntoWords splitter (HtmlDiff_new (joinWords ows) (joinWords nws) None)"
  let ?sub1 = "?sub\<lparr> matchGranularity :=
                      min MatchGranularityMaximum (min (length (oldWords ?sub)) (length (newWords ?sub))) \<rparr>"
  have "length (oldWords ?sub1) < fuel"
    using assms(2) by (simp add: splitInputsIntoWords_def HtmlDiff_new_def Let_def)
  from operations_returns [OF assms(1) this]
  have "fst (diffOrdinary fuel finder ?sub) \<noteq> None"
    by (auto simp: diffOrdinary_def Let_def split: option.splits)
  then show ?thesis
    by (simp add: diffWordRanges_def Let_def)
qed

lemma renderSegments_returns:
  assumes "finderInWindow finder"
  shows "\<exists>fuel0. \<forall>fuel \<ge> fuel0. renderSegments fuel splitter finder st segs \<noteq> None"
proof (induction segs)
  case Nil
  then show ?case by simp
next
  case (Cons s segs)
  then obtain f1 where f1: "\<forall>fuel \<ge> f1. renderSegments fuel splitter finder st segs \<noteq> None" by blast
  have "\<exists>f2. \<forall>fuel \<ge> f2. renderSegment fuel splitter finder st s \<noteq> None"
  proof (cases s)
    case (WordDiff a b c d)
    let ?ows = "slice (int a) (int b) (oldWords st)"
    have "\<forall>fuel \<ge> Suc (length (splitter (joinWords ?ows) [])).
            renderSegment fuel splitter finder st s \<noteq> None"
      using diffWordRanges_returns [OF assms, of splitter ?ows] WordDiff
      by (auto simp: Let_def)
    then show ?thesis by blast
  next
    case (BlockSpan a b c d)
    then show ?thesis by simp
  qed
  then obtain f2 where f2: "\<forall>fuel \<ge> f2. renderSegment fuel splitter finder st s \<noteq> None" by blast
  have "\<forall>fuel \<ge> max f1 f2. renderSegments fuel splitter finder st (s # segs) \<noteq> None"
    using f1 f2 by (auto split: option.splits)
  then show ?case by blast
qed

text \<open>
  C9. On an instance whose block lists are those \<open>findBlocks\<close> gives for its token arrays:
  the anchors of \<open>matchBlocksByTypeSimilarity\<close> are strictly increasing in both indices; the
  change ranges of \<open>detectBlockTypeChanges\<close> are ascending and pairwise disjoint on both
  axes and lie inside the arrays; \<open>diffWithBlockTypeChanges\<close> is the rendering of its
  segments, it returns once the fuel is large enough, and the segments tile both token
  ranges, so every old and every new token index is in exactly one segment.
\<close>

theorem block_changes_partition:
  assumes "blockAnalyzer st = Some ba"
    and "oldBlocks st = findBlocks ba (oldWords st)"
    and "newBlocks st = findBlocks ba (newWords st)"
    and "finderInWindow finder"
  shows "anchorsIncreasing (matchBlocksByTypeSimilarity st) \<and>
         changesAscending (detectBlockTypeChanges st) \<and>
         (\<forall>c \<in> set (detectBlockTypeChanges st).
            oldStart c \<le> oldEnd c \<and> oldEnd c < length (oldWords st) \<and>
            newStart c \<le> newEnd c \<and> newEnd c < length (newWords st)) \<and>
         (\<forall>fuel. diffWithBlockTypeChanges fuel splitter finder st (detectBlockTypeChanges st) =
            map_option joinWords
              (renderSegments fuel splitter finder st
                 (segmentsOf (detectBlockTypeChanges st) 0 0 (length (oldWords st)) (length (newWords st))))) \<and>
         (\<exists>fuel0. \<forall>fuel \<ge> fuel0.
            diffWithBlockTypeChanges fuel splitter finder st (detectBlockTypeChanges st) \<noteq> None) \<and>
         tiles 0 (length (oldWords st))
           (map segmentOld (segmentsOf (detectBlockTypeChanges st) 0 0 (length (oldWords st)) (length (newWords st)))) \<and>
         tiles 0 (length (newWords st))
           (map segmentNew (segmentsOf (detectBlockTypeChanges st) 0 0 (length (oldWords st)) (length (newWords st)))) \<and>
         (\<forall>i < length (oldWords st).
            \<exists>!k. k < length (segmentsOf (detectBlockTypeChanges st) 0 0 (length (oldWords st)) (length (newWords st))) \<and>
                 fst (segmentOld (segmentsOf (detectBlockTypeChanges st) 0 0 (length (oldWords st)) (length (newWords st)) ! k)) \<le> i \<and>
                 i < snd (segmentOld (segmentsOf (detectBlockTypeChanges st) 0 0 (length (oldWords st)) (length (newWords st)) ! k))) \<and>
         (\<forall>j < length (newWords st).
            \<exists>!k. k < length (segmentsOf (detectBlockTypeChanges st) 0 0 (length (oldWords st)) (length (newWords st))) \<and>
                 fst (segmentNew (segmentsOf (detectBlockTypeChanges st) 0 0 (length (oldWords st)) (length (newWords st)) ! k)) \<le> j \<and>
                 j < snd (segmentNew (segmentsOf (detectBlockTypeChanges st) 0 0 (length (oldWords st)) (length (newWords st)) ! k)))"
proof -
  let ?cs = "detectBlockTypeChanges st"
  let ?segs = "segmentsOf ?cs 0 0 (length (oldWords st)) (length (newWords st))"
  have wo: "blocksWellFormed (length (oldWords st)) (oldBlocks st)"
    unfolding assms(2) by (rule findBlocks_wellFormed)
  have wn: "blocksWellFormed (length (newWords st)) (newBlocks st)"
    unfolding assms(3) by (rule findBlocks_wellFormed)
  have a: "anchorsIncreasing (matchBlocksByTypeSimilarity st)" by (rule matchBlocks_increasing)
  have b: "changesAscending ?cs" using detect_ascending [OF wo wn] .
  have c: "\<forall>c \<in> set ?cs. oldStart c \<le> oldEnd c \<and> oldEnd c < length (oldWords st) \<and>
            newStart c \<le> newEnd c \<and> newEnd c < length (newWords st)"
    using detect_within [OF wo wn] by fastforce
  have d: "diffWithBlockTypeChanges fuel splitter finder st ?cs =
            map_option joinWords (renderSegments fuel splitter finder st ?segs)" for fuel
    by (simp add: diffWithBlockTypeChanges_def dwbtc_loop_segments option.map_comp comp_def)
  from renderSegments_returns [OF assms(4), of splitter st ?segs]
  obtain fuel0 where "\<forall>fuel \<ge> fuel0. renderSegments fuel splitter finder st ?segs \<noteq> None" by blast
  then have e: "\<exists>fuel0. \<forall>fuel \<ge> fuel0. diffWithBlockTypeChanges fuel splitter finder st ?cs \<noteq> None"
    unfolding d by (intro exI [of _ fuel0]) simp
  have t: "tiles 0 (length (oldWords st)) (map segmentOld ?segs) \<and>
           tiles 0 (length (newWords st)) (map segmentNew ?segs)"
    using segments_tile [OF b, of 0 "length (oldWords st)" 0 "length (newWords st)"] c by simp
  have co: "\<exists>!k. k < length ?segs \<and> fst (segmentOld (?segs ! k)) \<le> i \<and> i < snd (segmentOld (?segs ! k))"
    if "i < length (oldWords st)" for i
    using tiles_covers_once [OF t [THEN conjunct1] _ that] by (simp cong: conj_cong)
  have cn: "\<exists>!k. k < length ?segs \<and> fst (segmentNew (?segs ! k)) \<le> j \<and> j < snd (segmentNew (?segs ! k))"
    if "j < length (newWords st)" for j
    using tiles_covers_once [OF t [THEN conjunct2] _ that] by (simp cong: conj_cong)
  from a b c d e t co cn show ?thesis by blast
qed

text \<open>The two sides of a gap have equal count and pairwise the same block type.\<close>

definition gapTypesMatch :: "BlockAnalyzer \<Rightarrow> Block list \<Rightarrow> Block list \<Rightarrow> bool" where
  "gapTypesMatch ba oldRange newRange =
     (length oldRange = length newRange \<and>
      list_all2 (\<lambda>x y. isSameBlockType ba (Some x) (Some y)) oldRange newRange)"

lemma typesMatch_loop_list_all2:
  "length xs = length ys \<Longrightarrow>
   list_all (\<lambda>j. isSameBlockType ba (elemAt xs j) (elemAt ys j)) [0..<length xs] =
   list_all2 (\<lambda>x y. isSameBlockType ba (Some x) (Some y)) xs ys"
  by (auto simp: list_all_iff list_all2_conv_all_nth elemAt_def)

lemma gapChange_rule:
  "gapChange ba st current nextA =
     (let oldRange = slice (oldIndex current + 1) (oldIndex nextA) (oldBlocks st);
          newRange = slice (newIndex current + 1) (newIndex nextA) (newBlocks st)
      in if oldRange = [] \<or> newRange = [] \<or> gapTypesMatch ba oldRange newRange then []
         else [\<lparr> oldStart = startIndex (hd oldRange), oldEnd = endIndex (last oldRange),
                 newStart = startIndex (hd newRange), newEnd = endIndex (last newRange) \<rparr>])"
proof -
  define oldRange where "oldRange = slice (oldIndex current + 1) (oldIndex nextA) (oldBlocks st)"
  define newRange where "newRange = slice (newIndex current + 1) (newIndex nextA) (newBlocks st)"
  have m: "(length oldRange = length newRange \<and>
            list_all (\<lambda>j. isSameBlockType ba (elemAt oldRange j) (elemAt newRange j)) [0..<length oldRange])
           = gapTypesMatch ba oldRange newRange"
    using typesMatch_loop_list_all2 [of oldRange newRange ba]
    by (auto simp: gapTypesMatch_def)
  have e: "startIndex (oldRange ! 0) = startIndex (hd oldRange) \<and>
           endIndex (oldRange ! (length oldRange - 1)) = endIndex (last oldRange)" if "oldRange \<noteq> []"
    using that by (simp add: hd_conv_nth last_conv_nth)
  have e': "startIndex (newRange ! 0) = startIndex (hd newRange) \<and>
           endIndex (newRange ! (length newRange - 1)) = endIndex (last newRange)" if "newRange \<noteq> []"
    using that by (simp add: hd_conv_nth last_conv_nth)
  show ?thesis
    unfolding gapChange_def Let_def oldRange_def [symmetric] newRange_def [symmetric] m
    using e e' by auto
qed

lemma detect_loop_concat:
  "detect_loop ba st as = concat (map (\<lambda>(a, b). gapChange ba st a b) (zip as (tl as)))"
  by (induction ba st as rule: detect_loop.induct) simp_all

lemma blockSpan_in_segments:
  "c \<in> set cs \<Longrightarrow>
   BlockSpan (oldStart c) (oldEnd c + 1) (newStart c) (newEnd c + 1) \<in> set (segmentsOf cs oldPos newPos oldLen newLen)"
  by (induction cs arbitrary: oldPos newPos) auto

text \<open>
  C4, as the code has it. For every gap between consecutive anchors (the sentinels
  included): when one side of the gap has no block, or both sides have equal count and
  pairwise the same type, the gap yields no change and is left to word-level diffing;
  otherwise it yields one change that runs from the start of the first to the end of the
  last block of the gap on either side. \<open>detectBlockTypeChanges\<close> is the list of these
  changes in gap order, each change is one segment of \<open>diffWithBlockTypeChanges\<close>, rendered
  as one \<open>diffdel\<close> element around the joined old span followed by one \<open>diffins\<close> element
  around the joined new span, and with no change at all \<open>diff\<close> takes the ordinary path.
\<close>

theorem gap_type_change_rule:
  assumes "blockAnalyzer st = Some ba"
  shows "gapChange ba st current nextA =
           (let oldRange = slice (oldIndex current + 1) (oldIndex nextA) (oldBlocks st);
                newRange = slice (newIndex current + 1) (newIndex nextA) (newBlocks st)
            in if oldRange = [] \<or> newRange = [] \<or> gapTypesMatch ba oldRange newRange then []
               else [\<lparr> oldStart = startIndex (hd oldRange), oldEnd = endIndex (last oldRange),
                       newStart = startIndex (hd newRange), newEnd = endIndex (last newRange) \<rparr>]) \<and>
         detectBlockTypeChanges st =
           concat (map (\<lambda>(a, b). gapChange ba st a b) (zip (anchoredMatchesOf st) (tl (anchoredMatchesOf st)))) \<and>
         diffWithBlockTypeChanges fuel splitter finder st (detectBlockTypeChanges st) =
            map_option joinWords
              (renderSegments fuel splitter finder st
                 (segmentsOf (detectBlockTypeChanges st) 0 0 (length (oldWords st)) (length (newWords st)))) \<and>
         (\<forall>c \<in> set (detectBlockTypeChanges st).
            BlockSpan (oldStart c) (oldEnd c + 1) (newStart c) (newEnd c + 1)
              \<in> set (segmentsOf (detectBlockTypeChanges st) 0 0 (length (oldWords st)) (length (newWords st))) \<and>
            renderSegment fuel splitter finder st (BlockSpan (oldStart c) (oldEnd c + 1) (newStart c) (newEnd c + 1)) =
              Some [delBlock (joinWords (slice (int (oldStart c)) (int (oldEnd c + 1)) (oldWords st))),
                    insBlock (joinWords (slice (int (newStart c)) (int (newEnd c + 1)) (newWords st)))]) \<and>
         (\<forall>st0. blockAnalyzer st0 = Some ba \<and> oldText st0 \<noteq> newText st0 \<longrightarrow>
            HtmlDiff_diff fuel splitter finder st0 =
              (let st1 = splitInputsIntoWords splitter st0;
                   st3 = st1\<lparr> oldBlocks := findBlocks ba (oldWords st1),
                              newBlocks := findBlocks ba (newWords st1) \<rparr>
               in if detectBlockTypeChanges st3 = [] then diffOrdinary fuel finder st3
                  else (diffWithBlockTypeChanges fuel splitter finder st3 (detectBlockTypeChanges st3), st3)))"
proof (intro conjI)
  show "gapChange ba st current nextA =
           (let oldRange = slice (oldIndex current + 1) (oldIndex nextA) (oldBlocks st);
                newRange = slice (newIndex current + 1) (newIndex nextA) (newBlocks st)
            in if oldRange = [] \<or> newRange = [] \<or> gapTypesMatch ba oldRange newRange then []
               else [\<lparr> oldStart = startIndex (hd oldRange), oldEnd = endIndex (last oldRange),
                       newStart = startIndex (hd newRange), newEnd = endIndex (last newRange) \<rparr>])"
    by (rule gapChange_rule)
  show "detectBlockTypeChanges st =
           concat (map (\<lambda>(a, b). gapChange ba st a b) (zip (anchoredMatchesOf st) (tl (anchoredMatchesOf st))))"
    using assms
    by (simp add: detectBlockTypeChanges_def Let_def anchoredMatchesOf_def detect_loop_concat)
  show "diffWithBlockTypeChanges fuel splitter finder st (detectBlockTypeChanges st) =
            map_option joinWords
              (renderSegments fuel splitter finder st
                 (segmentsOf (detectBlockTypeChanges st) 0 0 (length (oldWords st)) (length (newWords st))))"
    by (simp add: diffWithBlockTypeChanges_def dwbtc_loop_segments option.map_comp comp_def)
  show "\<forall>c \<in> set (detectBlockTypeChanges st).
            BlockSpan (oldStart c) (oldEnd c + 1) (newStart c) (newEnd c + 1)
              \<in> set (segmentsOf (detectBlockTypeChanges st) 0 0 (length (oldWords st)) (length (newWords st))) \<and>
            renderSegment fuel splitter finder st (BlockSpan (oldStart c) (oldEnd c + 1) (newStart c) (newEnd c + 1)) =
              Some [delBlock (joinWords (slice (int (oldStart c)) (int (oldEnd c + 1)) (oldWords st))),
                    insBlock (joinWords (slice (int (newStart c)) (int (newEnd c + 1)) (newWords st)))]"
    using blockSpan_in_segments by simp
  show "\<forall>st0. blockAnalyzer st0 = Some ba \<and> oldText st0 \<noteq> newText st0 \<longrightarrow>
            HtmlDiff_diff fuel splitter finder st0 =
              (let st1 = splitInputsIntoWords splitter st0;
                   st3 = st1\<lparr> oldBlocks := findBlocks ba (oldWords st1),
                              newBlocks := findBlocks ba (newWords st1) \<rparr>
               in if detectBlockTypeChanges st3 = [] then diffOrdinary fuel finder st3
                  else (diffWithBlockTypeChanges fuel splitter finder st3 (detectBlockTypeChanges st3), st3))"
    by (auto simp: HtmlDiff_diff_def Let_def splitInputsIntoWords_def)
qed

definition analysedInstance :: "string list \<Rightarrow> string list \<Rightarrow> HtmlDiff" where
  "analysedInstance ows nws =
     (let st = (HtmlDiff_new [] [] (Some \<lparr> blockDiffH = blockDiff blockOptions \<rparr>))
                 \<lparr> oldWords := ows, newWords := nws \<rparr>;
          ba = BlockAnalyzer_new (blockDiff blockOptions)
      in st\<lparr> oldBlocks := findBlocks ba (oldWords st), newBlocks := findBlocks ba (newWords st) \<rparr>)"

lemma analysedInstance_fields:
  "blockAnalyzer (analysedInstance ows nws) = Some (BlockAnalyzer_new (blockDiff blockOptions))"
  "oldWords (analysedInstance ows nws) = ows"
  "newWords (analysedInstance ows nws) = nws"
  "oldBlocks (analysedInstance ows nws) = findBlocks (BlockAnalyzer_new (blockDiff blockOptions)) ows"
  "newBlocks (analysedInstance ows nws) = findBlocks (BlockAnalyzer_new (blockDiff blockOptions)) nws"
  by (simp_all add: analysedInstance_def HtmlDiff_new_def Let_def blockOptions_def)

definition listOld :: "string list" where
  "listOld = [''<ul>'', ''aaaa'', ''</ul>'', ''<p>'', ''x'', ''</p>'']"

definition listNew :: "string list" where
  "listNew = [''<p>'', ''aaaa'', ''</p>'', ''<p>'', ''y'', ''</p>'']"

lemma list_example_changes:
  "detectBlockTypeChanges (analysedInstance listOld listNew) =
     [\<lparr> oldStart = 0, oldEnd = 2, newStart = 0, newEnd = 2 \<rparr>]"
  by code_simp

lemma list_example_anchors:
  "matchBlocksByTypeSimilarity (analysedInstance listOld listNew) = [\<lparr> oldIndex = 1, newIndex = 1 \<rparr>]"
  by code_simp

definition headingOld :: "string list" where
  "headingOld = [''<h2>'', ''S'', ''</h2>'']"

definition headingNew :: "string list" where
  "headingNew = [''<p>'', ''x'', ''</p>'', ''<h2>'', ''S'', ''</h2>'']"

text \<open>
  A heading against a new paragraph followed by the same heading: the gap before the
  only anchor has no old block and one new block, so the counts differ, and the code
  reports no change for it.
\<close>

theorem gap_unequal_count_counterexample:
  "matchBlocksByTypeSimilarity (analysedInstance headingOld headingNew) = [\<lparr> oldIndex = 0, newIndex = 1 \<rparr>] \<and>
   length (slice (- 1 + 1) 0 (oldBlocks (analysedInstance headingOld headingNew))) = 0 \<and>
   length (slice (- 1 + 1) 1 (newBlocks (analysedInstance headingOld headingNew))) = 1 \<and>
   \<not> gapTypesMatch (BlockAnalyzer_new (blockDiff blockOptions))
       (slice (- 1 + 1) 0 (oldBlocks (analysedInstance headingOld headingNew)))
       (slice (- 1 + 1) 1 (newBlocks (analysedInstance headingOld headingNew))) \<and>
   gapChange (BlockAnalyzer_new (blockDiff blockOptions)) (analysedInstance headingOld headingNew)
     \<lparr> oldIndex = - 1, newIndex = - 1 \<rparr> \<lparr> oldIndex = 0, newIndex = 1 \<rparr> = [] \<and>
   detectBlockTypeChanges (analysedInstance headingOld headingNew) = []"
  by code_simp

lemma list_example_segments:
  "segmentsOf [\<lparr> oldStart = 0, oldEnd = 2, newStart = 0, newEnd = 2 \<rparr>] 0 0 6 6 =
     [BlockSpan 0 3 0 3, WordDiff 3 6 3 6]"
  by simp

theorem block_changes_partition_witness:
  "blockAnalyzer (analysedInstance listOld listNew) = Some (BlockAnalyzer_new (blockDiff blockOptions)) \<and>
   oldBlocks (analysedInstance listOld listNew) =
     findBlocks (BlockAnalyzer_new (blockDiff blockOptions)) (oldWords (analysedInstance listOld listNew)) \<and>
   newBlocks (analysedInstance listOld listNew) =
     findBlocks (BlockAnalyzer_new (blockDiff blockOptions)) (newWords (analysedInstance listOld listNew)) \<and>
   finderInWindow MatchFinder_findMatch \<and>
   anchorsIncreasing [\<lparr> oldIndex = 1, newIndex = 1 \<rparr>] \<and>
   changesAscending [\<lparr> oldStart = 0, oldEnd = 2, newStart = 0, newEnd = 2 \<rparr>] \<and>
   tiles 0 6 (map segmentOld [BlockSpan 0 3 0 3, WordDiff 3 6 3 6]) \<and>
   tiles 0 6 (map segmentNew [BlockSpan 0 3 0 3, WordDiff 3 6 3 6])"
proof -
  let ?st = "analysedInstance listOld listNew"
  let ?ba = "BlockAnalyzer_new (blockDiff blockOptions)"
  have p1: "blockAnalyzer ?st = Some ?ba" by (rule analysedInstance_fields)
  have p2: "oldBlocks ?st = findBlocks ?ba (oldWords ?st)" by (simp add: analysedInstance_fields)
  have p3: "newBlocks ?st = findBlocks ?ba (newWords ?st)" by (simp add: analysedInstance_fields)
  have len: "length (oldWords ?st) = 6" "length (newWords ?st) = 6"
    by (simp_all add: analysedInstance_fields listOld_def listNew_def)
  from block_changes_partition [OF p1 p2 p3 MatchFinder_findMatch_inWindow,
      of convertHtmlToListOfWords]
  have "anchorsIncreasing (matchBlocksByTypeSimilarity ?st)"
    "changesAscending (detectBlockTypeChanges ?st)"
    "tiles 0 (length (oldWords ?st))
       (map segmentOld (segmentsOf (detectBlockTypeChanges ?st) 0 0 (length (oldWords ?st)) (length (newWords ?st))))"
    "tiles 0 (length (newWords ?st))
       (map segmentNew (segmentsOf (detectBlockTypeChanges ?st) 0 0 (length (oldWords ?st)) (length (newWords ?st))))"
    by blast+
  note f = this [unfolded list_example_anchors list_example_changes len list_example_segments]
  from f p1 p2 p3 MatchFinder_findMatch_inWindow show ?thesis by blast
qed

lemma list_example_rendering:
  \<open>delBlock (joinWords (slice (int 0) (int (2 + 1)) listOld)) = ''<del class="diffdel"><ul>aaaa</ul></del>'' \<and>
   insBlock (joinWords (slice (int 0) (int (2 + 1)) listNew)) = ''<ins class="diffins"><p>aaaa</p></ins>''\<close>
  by code_simp

theorem gap_type_change_rule_witness:
  \<open>blockAnalyzer (analysedInstance listOld listNew) = Some (BlockAnalyzer_new (blockDiff blockOptions)) \<and>
   detectBlockTypeChanges (analysedInstance listOld listNew) =
     [\<lparr> oldStart = 0, oldEnd = 2, newStart = 0, newEnd = 2 \<rparr>] \<and>
   renderSegment 0 convertHtmlToListOfWords MatchFinder_findMatch (analysedInstance listOld listNew)
       (BlockSpan 0 (2 + 1) 0 (2 + 1)) =
     Some [''<del class="diffdel"><ul>aaaa</ul></del>'', ''<ins class="diffins"><p>aaaa</p></ins>'']\<close>
proof -
  let ?st = "analysedInstance listOld listNew"
  let ?ba = "BlockAnalyzer_new (blockDiff blockOptions)"
  let ?c = "\<lparr> oldStart = 0, oldEnd = 2, newStart = 0, newEnd = 2 \<rparr>"
  have p1: "blockAnalyzer ?st = Some ?ba" by (rule analysedInstance_fields)
  note r = gap_type_change_rule [OF p1, where fuel = 0 and splitter = convertHtmlToListOfWords
      and finder = MatchFinder_findMatch, THEN conjunct2, THEN conjunct2, THEN conjunct2, THEN conjunct1]
  have "?c \<in> set (detectBlockTypeChanges ?st)" by (simp add: list_example_changes)
  from r [rule_format, OF this]
  have "renderSegment 0 convertHtmlToListOfWords MatchFinder_findMatch ?st (BlockSpan 0 (2 + 1) 0 (2 + 1)) =
      Some [delBlock (joinWords (slice (int 0) (int (2 + 1)) (oldWords ?st))),
            insBlock (joinWords (slice (int 0) (int (2 + 1)) (newWords ?st)))]"
    by simp
  then have \<open>renderSegment 0 convertHtmlToListOfWords MatchFinder_findMatch ?st (BlockSpan 0 (2 + 1) 0 (2 + 1)) =
      Some [''<del class="diffdel"><ul>aaaa</ul></del>'', ''<ins class="diffins"><p>aaaa</p></ins>'']\<close>
    unfolding analysedInstance_fields using list_example_rendering by simp
  with p1 list_example_changes show ?thesis by blast
qed

section \<open>Pure insertions: every old block stays anchored\<close>
























text \<open>
  What the finder returns on the tokens of a pure insertion. \<open>groupsMatch\<close> is the test of
  one step of \<open>extendMatch\<close>.
\<close>

definition groupsMatch ::
  "MatchOptions \<Rightarrow> string list \<Rightarrow> string list \<Rightarrow> nat \<Rightarrow> nat \<Rightarrow> nat \<Rightarrow> nat \<Rightarrow> nat \<Rightarrow> bool" where
  "groupsMatch opts ows nws sn eo en i j =
     (i + blockSize opts \<le> eo \<and> j + blockSize opts \<le> en \<and>
      groupKey opts ows i = groupKey opts nws j \<and>
      \<not> isRepeating opts nws sn en (groupKey opts nws j))"

lemma extendMatch_step:
  "extendMatch opts ows nws sn eo en (Suc k) i j =
     (if groupsMatch opts ows nws sn eo en i j
      then Suc (extendMatch opts ows nws sn eo en k (Suc i) (Suc j)) else 0)"
  by (simp add: groupsMatch_def)

lemma extendMatch_gt:
  "t < extendMatch opts ows nws sn eo en k i j \<Longrightarrow> groupsMatch opts ows nws sn eo en (i + t) (j + t)"
proof (induction k arbitrary: i j t)
  case 0
  then show ?case by simp
next
  case (Suc k)
  from Suc.prems have c: "groupsMatch opts ows nws sn eo en i j"
    by (simp only: extendMatch_step split: if_splits)
  show ?case
  proof (cases t)
    case 0
    with c show ?thesis by simp
  next
    case (Suc t')
    with Suc.prems c have "t' < extendMatch opts ows nws sn eo en k (Suc i) (Suc j)"
      by (simp only: extendMatch_step if_True Suc_less_eq)
    from Suc.IH [OF this] Suc show ?thesis by simp
  qed
qed


lemma extendMatch_window:
  assumes "0 < blockSize opts"
  shows "i + extendMatch opts ows nws sn eo en k i j + blockSize opts \<le> eo + 1 \<or>
         extendMatch opts ows nws sn eo en k i j = 0"
proof (cases "extendMatch opts ows nws sn eo en k i j")
  case 0
  then show ?thesis by simp
next
  case (Suc e)
  then have "e < extendMatch opts ows nws sn eo en k i j" by simp
  from extendMatch_gt [OF this] have "i + e + blockSize opts \<le> eo" by (simp add: groupsMatch_def)
  with Suc show ?thesis by simp
qed







text \<open>
  The old tokens are \<open>P @ S\<close> and the new tokens \<open>P @ I @ S\<close>. Every group of \<open>blockSize\<close>
  tokens that the two arrays share is either at the same index, ending within the first
  \<open>max p (s - 1)\<close> tokens, or at the index shifted by the length of \<open>I\<close>, starting at
  \<open>min p s\<close> or later, where \<open>p\<close> and \<open>s\<close> are the lengths of \<open>P\<close> and \<open>S\<close>.
\<close>

definition runsAligned :: "MatchOptions \<Rightarrow> string list \<Rightarrow> string list \<Rightarrow> string list \<Rightarrow> bool" where
  "runsAligned opts P I S =
     (let ows = P @ S; nws = P @ I @ S; p = length P; q = length I; s = length S
      in list_all (\<lambda>i. list_all (\<lambda>j. groupKey opts ows i = groupKey opts nws j \<longrightarrow>
                                     (j = i \<and> i + blockSize opts \<le> max p (s - 1)) \<or>
                                     (j = i + q \<and> min p s \<le> i))
                          (groupStarts opts 0 (length nws)))
                  (groupStarts opts 0 (length ows)))"















text \<open>The options of the first call of the finder on an instance that \<open>diff\<close> builds, once both arrays have four tokens.\<close>

definition diffMatchOptions :: MatchOptions where
  "diffMatchOptions =
     \<lparr> blockSize = MatchGranularityMaximum, repeatingWordsAccuracyOpt = 1, ignoreWhitespaceDifferences = False \<rparr>"


























lemma repeated_blocks_not_aligned:
  "\<not> runsAligned diffMatchOptions
       [''<p>'', ''a'', ''</p>'', ''<p>'', ''a'', ''</p>'']
       [''<h2>'', ''b'', ''</h2>'', ''<h3>'', ''y'', ''</h3>'']
       [''<p>'', ''a'', ''</p>'', ''<h2>'', ''b'', ''</h2>'']"
  by code_simp


section \<open>The pairwise score of block alignment\<close>

text \<open>
  Rounding to a double moves a positive value by at most the fraction \<open>2^-53\<close> of it, so the
  product in \<open>scoreForMatch\<close> is within \<open>300 / 2^53\<close> of the exact \<open>100 * d / m\<close>.
\<close>

lemma roundHalfEven_error: "\<bar>of_int (roundHalfEven t) - t\<bar> \<le> 1 / 2"
proof -
  have "of_int \<lfloor>t\<rfloor> \<le> t" "t < of_int \<lfloor>t\<rfloor> + 1" by linarith+
  then show ?thesis by (auto simp: roundHalfEven_def Let_def abs_le_iff)
qed

lemma expo2_le:
  assumes q: "0 < q"
  shows "2 powi (expo2 q) \<le> q"
proof -
  obtain a b where ab: "quotient_of q = (a, b)" by fastforce
  have b: "0 < b" using quotient_of_denom_pos [OF ab] .
  have qd: "q = of_int a / of_int b" using quotient_of_div [OF ab] .
  have a: "0 < a" using q b qd by (simp add: zero_less_divide_iff)
  let ?k = "bitlen a - bitlen b"
  show ?thesis
  proof (cases "q < 2 powi ?k")
    case False
    then show ?thesis by (simp add: expo2_def ab Let_def)
  next
    case True
    from bitlen_bounds [OF a] have 1: "2 ^ nat (bitlen a - 1) \<le> a" by simp
    from bitlen_bounds [OF b] have 2: "b < 2 ^ nat (bitlen b)" by simp
    have ka: "1 \<le> bitlen a" using a bitlen_eq_zero_iff [of a] bitlen_nonneg [of a] by linarith
    have r1: "(2::rat) ^ nat (bitlen a - 1) \<le> of_int a"
    proof -
      have "(of_int (2 ^ nat (bitlen a - 1)) :: rat) \<le> of_int a" using 1 by (simp only: of_int_le_iff)
      then show ?thesis by simp
    qed
    have r2: "(of_int b :: rat) \<le> 2 ^ nat (bitlen b)"
    proof -
      have "(of_int b :: rat) \<le> of_int (2 ^ nat (bitlen b))" using 2 by (simp only: of_int_le_iff)
      then show ?thesis by simp
    qed
    have "(2::rat) powi (?k - 1) = 2 powi (bitlen a - 1) / 2 powi bitlen b"
      using power_int_diff [of "2::rat" "bitlen a - 1" "bitlen b"] by (simp add: algebra_simps)
    also have "\<dots> = 2 ^ nat (bitlen a - 1) / 2 ^ nat (bitlen b)"
      using ka bitlen_nonneg [of b] by (simp add: power_int_nonneg_exp)
    also have "\<dots> \<le> of_int a / of_int b"
      by (rule frac_le) (use r1 r2 a b in simp_all)
    finally have "2 powi (?k - 1) \<le> q" unfolding qd .
    moreover have "expo2 q = ?k - 1" using True by (simp add: expo2_def ab Let_def)
    ultimately show ?thesis by simp
  qed
qed

lemma toDouble_error:
  assumes q: "0 < q"
  shows "\<bar>toDouble q - q\<bar> \<le> q / 2 ^ 53"
proof -
  let ?e = "expo2 q"
  let ?u = "(2::rat) powi (?e - 52)"
  have u: "0 < ?u" by simp
  have td: "toDouble q = of_int (roundHalfEven (q / ?u)) * ?u"
    using q by (simp add: toDouble_def Let_def)
  have "toDouble q - q = (of_int (roundHalfEven (q / ?u)) - q / ?u) * ?u"
    using u by (simp add: td algebra_simps)
  then have "\<bar>toDouble q - q\<bar> = \<bar>of_int (roundHalfEven (q / ?u)) - q / ?u\<bar> * ?u"
    using u by (simp add: abs_mult)
  also have "\<dots> \<le> (1 / 2) * ?u"
    by (rule mult_right_mono [OF roundHalfEven_error]) (use u in simp)
  also have "\<dots> = 2 powi ?e / 2 ^ 53"
  proof -
    have "?u = 2 powi ?e / 2 powi 52" by (rule power_int_diff) simp
    then show ?thesis by simp
  qed
  also have "\<dots> \<le> q / 2 ^ 53"
    using expo2_le [OF q] by (simp add: divide_right_mono)
  finally show ?thesis .
qed


lemma toDouble_pos:
  assumes q: "0 < q"
  shows "0 < toDouble q"
proof -
  define e where "e = q / 2 ^ 53"
  have "e < q" using q by (simp add: e_def divide_less_eq)
  moreover have "\<bar>toDouble q - q\<bar> \<le> e" unfolding e_def by (rule toDouble_error [OF q])
  ultimately show ?thesis by linarith
qed

lemma double_product_error:
  assumes q: "0 < q" and q1: "q \<le> 1"
  shows "\<bar>toDouble (toDouble q * 100) - 100 * q\<bar> \<le> 300 / 2 ^ 53"
proof -
  define e :: rat where "e = 1 / 2 ^ 53"
  define r where "r = toDouble q"
  define y where "y = toDouble (r * 100)"
  have e01: "0 < e" "e \<le> 1" by (simp_all add: e_def)
  have "q / 2 ^ 53 = q * e" by (simp add: e_def)
  with toDouble_error [OF q] have "\<bar>r - q\<bar> \<le> q * e" by (simp only: r_def)
  moreover have "q * e \<le> 1 * e" by (rule mult_right_mono) (use q1 e01 in simp_all)
  ultimately have e1: "\<bar>r - q\<bar> \<le> e" by linarith
  have rp: "0 < r * 100" using toDouble_pos [OF q] by (simp add: r_def)
  have ru: "r * 100 \<le> 200" using e1 q1 e01 by linarith
  have "r * 100 / 2 ^ 53 = (r * 100) * e" by (simp add: e_def)
  with toDouble_error [OF rp] have "\<bar>y - r * 100\<bar> \<le> (r * 100) * e" by (simp only: y_def)
  moreover have "(r * 100) * e \<le> 200 * e" by (rule mult_right_mono) (use ru e01 in simp_all)
  ultimately have e2: "\<bar>y - r * 100\<bar> \<le> 200 * e" by linarith
  from e1 e2 have "\<bar>y - 100 * q\<bar> \<le> 300 * e" by linarith
  then show ?thesis by (simp add: y_def r_def e_def)
qed

lemma floor_near_fraction:
  fixes r :: rat and N M :: int
  assumes M: "0 < M" and near: "\<bar>r - of_int N / of_int M\<bar> \<le> e" and e: "e < 1 / of_int M"
  shows "\<not> M dvd N \<Longrightarrow> \<lfloor>r\<rfloor> = N div M"
    and "M dvd N \<Longrightarrow> \<lfloor>r\<rfloor> = N div M \<or> \<lfloor>r\<rfloor> = N div M - 1"
proof -
  let ?F = "N div M" and ?R = "N mod M"
  have MR: "(0::rat) < of_int M" using M by simp
  have "N = ?F * M + ?R" by simp
  then have "(of_int N :: rat) = of_int ?F * of_int M + of_int ?R"
    by (metis of_int_add of_int_mult)
  then have z: "(of_int N :: rat) / of_int M = of_int ?F + of_int ?R / of_int M"
    using MR by (simp add: field_simps)
  have e1: "e < 1" 
  proof -
    have "(1::rat) / of_int M \<le> 1" using M by simp
    with e show ?thesis by linarith
  qed
  {
    assume nd: "\<not> M dvd N"
    have "0 \<le> ?R" "?R < M" using M by simp_all
    moreover have "?R \<noteq> 0" using nd by (simp add: dvd_eq_mod_eq_0)
    ultimately have R: "1 \<le> ?R" "?R \<le> M - 1" by linarith+
    have lo: "(1::rat) / of_int M \<le> of_int ?R / of_int M"
      using R(1) MR by (simp add: divide_right_mono)
    have "(of_int ?R :: rat) \<le> of_int (M - 1)" using R(2) by (simp only: of_int_le_iff)
    then have "(of_int ?R :: rat) / of_int M \<le> of_int (M - 1) / of_int M"
      using MR by (simp add: divide_right_mono)
    also have "\<dots> = 1 - 1 / of_int M" using MR by (simp add: field_simps)
    finally have hi: "(of_int ?R :: rat) / of_int M \<le> 1 - 1 / of_int M" .
    have "of_int ?F \<le> r" "r < of_int ?F + 1"
      using near e lo hi unfolding z by linarith+
    then show "\<lfloor>r\<rfloor> = ?F" by (rule floor_unique)
  }
  {
    assume d: "M dvd N"
    then have "?R = 0" by (simp add: dvd_eq_mod_eq_0)
    with z have z0: "(of_int N :: rat) / of_int M = of_int ?F" by simp
    have b: "of_int ?F - 1 < r" "r < of_int ?F + 1"
      using near e1 unfolding z0 by linarith+
    show "\<lfloor>r\<rfloor> = ?F \<or> \<lfloor>r\<rfloor> = ?F - 1"
    proof (cases "of_int ?F \<le> r")
      case True
      from this b(2) have "\<lfloor>r\<rfloor> = ?F" by (rule floor_unique)
      then show ?thesis by simp
    next
      case False
      have "\<lfloor>r\<rfloor> = ?F - 1"
        by (rule floor_unique) (use False b(1) in simp_all)
      then show ?thesis by simp
    qed
  }
qed


text \<open>
  The pairwise score in the words of the specification, in exact arithmetic, with
  \<open>round\<close> the nearest integer, halves up.
\<close>

definition specScore :: "nat \<Rightarrow> nat \<Rightarrow> int" where
  "specScore lenOld lenNew =
     (let m = max lenOld lenNew
      in if m = 0 then 100
         else 100 - Math_round (100 * of_int \<bar>int lenOld - int lenNew\<bar> / of_nat m))"

text \<open>The exact value \<open>100 * |lenOld - lenNew| / max lenOld lenNew\<close> lies half-way between two integers.\<close>

definition halfway :: "nat \<Rightarrow> nat \<Rightarrow> bool" where
  "halfway lenOld lenNew =
     (let m = max lenOld lenNew; d = m - min lenOld lenNew
      in 0 < m \<and> 2 * m dvd 200 * d + m)"

lemma Math_round_product:
  fixes d m :: nat
  assumes d: "0 < d" and dm: "d \<le> m" and m: "m \<le> 2 ^ 43"
  shows "\<not> 2 * m dvd 200 * d + m \<Longrightarrow>
           Math_round (toDouble (toDouble (of_nat d / of_nat m) * 100)) =
           Math_round (100 * of_nat d / of_nat m)"
    and "2 * m dvd 200 * d + m \<Longrightarrow>
           Math_round (toDouble (toDouble (of_nat d / of_nat m) * 100)) = Math_round (100 * of_nat d / of_nat m) \<or>
           Math_round (toDouble (toDouble (of_nat d / of_nat m) * 100)) = Math_round (100 * of_nat d / of_nat m) - 1"
proof -
  define q :: rat where "q = of_nat d / of_nat m"
  define r where "r = toDouble (toDouble q * 100) + 1 / 2"
  define N where "N = 200 * int d + int m"
  define M where "M = 2 * int m"
  have mp: "0 < m" using d dm by simp
  have M: "0 < M" using mp by (simp add: M_def)
  have q0: "0 < q" using d mp by (simp add: q_def)
  have q1: "q \<le> 1" using dm mp by (simp add: q_def)
  have z: "(of_int N :: rat) / of_int M = 100 * of_nat d / of_nat m + 1 / 2"
    using mp by (simp add: N_def M_def field_simps)
  have "\<bar>r - of_int N / of_int M\<bar> = \<bar>toDouble (toDouble q * 100) - 100 * q\<bar>"
    unfolding z by (simp add: r_def q_def)
  with double_product_error [OF q0 q1]
  have near: "\<bar>r - of_int N / of_int M\<bar> \<le> 300 / 2 ^ 53" by simp
  have "int m \<le> 2 ^ 43" using m by (metis of_nat_le_iff of_nat_numeral of_nat_power)
  then have "M \<le> 2 ^ 44" by (simp add: M_def)
  then have "(of_int M :: rat) \<le> of_int (2 ^ 44)" by (simp only: of_int_le_iff)
  then have Mr: "(of_int M :: rat) \<le> 2 ^ 44" by simp
  have "(300::rat) / 2 ^ 53 < 1 / 2 ^ 44" by simp
  also have "\<dots> \<le> 1 / of_int M"
    by (rule divide_left_mono) (use Mr M in simp_all)
  finally have e: "(300::rat) / 2 ^ 53 < 1 / of_int M" .
  have fl: "Math_round (100 * of_nat d / of_nat m) = N div M"
    unfolding Math_round_def z [symmetric] by (rule floor_divide_of_int_eq)
  have rr: "Math_round (toDouble (toDouble (of_nat d / of_nat m) * 100)) = \<lfloor>r\<rfloor>"
    by (simp add: Math_round_def r_def q_def)
  have dv: "(2 * m dvd 200 * d + m) = (M dvd N)"
  proof -
    have "(M dvd N) = (int (2 * m) dvd int (200 * d + m))" by (simp add: M_def N_def)
    also have "\<dots> = (2 * m dvd 200 * d + m)" by (rule int_dvd_int_iff)
    finally show ?thesis by simp
  qed
  {
    assume "\<not> 2 * m dvd 200 * d + m"
    then have "\<not> M dvd N" using dv by blast
    from floor_near_fraction(1) [OF M near e this]
    show "Math_round (toDouble (toDouble (of_nat d / of_nat m) * 100)) =
           Math_round (100 * of_nat d / of_nat m)" by (simp only: fl rr)
  }
  {
    assume "2 * m dvd 200 * d + m"
    then have "M dvd N" using dv by blast
    from floor_near_fraction(2) [OF M near e this]
    show "Math_round (toDouble (toDouble (of_nat d / of_nat m) * 100)) = Math_round (100 * of_nat d / of_nat m) \<or>
           Math_round (toDouble (toDouble (of_nat d / of_nat m) * 100)) = Math_round (100 * of_nat d / of_nat m) - 1"
      by (simp only: fl rr)
  }
qed

lemma getBlockInnerWords_between:
  "getBlockInnerWords ws b = take (endIndex b - Suc (startIndex b)) (drop (Suc (startIndex b)) ws)"
  using slice_nat [of "Suc (startIndex b)" "endIndex b" ws]
  by (simp add: getBlockInnerWords_def add.commute)

lemma scoreForMatch_unfold:
  assumes "blockAnalyzer st = Some ba" "i < length (oldBlocks st)" "j < length (newBlocks st)"
  shows "scoreForMatch st (innerLengths (oldWords st) (oldBlocks st)) (innerLengths (newWords st) (newBlocks st)) i j =
     (let lenOld = length (joinWords (getBlockInnerWords (oldWords st) (oldBlocks st ! i)));
          lenNew = length (joinWords (getBlockInnerWords (newWords st) (newBlocks st ! j)))
      in if \<not> isSameBlockType ba (Some (oldBlocks st ! i)) (Some (newBlocks st ! j)) then 0
         else if max lenOld lenNew = 0 then 100
         else 100 - Math_round (toDouble (toDouble (of_int \<bar>int lenOld - int lenNew\<bar> / of_nat (max lenOld lenNew)) * 100)))"
  using assms by (simp add: scoreForMatch_def elemAt_def innerLengths_def Let_def)

lemma doubleScore_spec:
  fixes a b :: nat
  assumes m: "max a b \<le> 2 ^ 43" and pos: "0 < max a b"
    and sc: "sc = 100 - Math_round (toDouble (toDouble (of_int \<bar>int a - int b\<bar> / of_nat (max a b)) * 100))"
  shows "\<not> halfway a b \<Longrightarrow> sc = specScore a b"
    and "halfway a b \<Longrightarrow> sc = specScore a b \<or> sc = specScore a b + 1"
proof -
  define d where "d = max a b - min a b"
  have dabs: "(of_int \<bar>int a - int b\<bar> :: rat) = of_nat d"
  proof -
    have "\<bar>int a - int b\<bar> = int d" by (simp add: d_def max_def min_def)
    then show ?thesis by simp
  qed
  have dm: "d \<le> max a b" by (simp add: d_def)
  have sp: "specScore a b = 100 - Math_round (100 * of_nat d / of_nat (max a b))"
    unfolding specScore_def Let_def dabs using pos by auto
  have hw: "halfway a b = (2 * max a b dvd 200 * d + max a b)"
    using pos by (simp add: halfway_def Let_def d_def)
  have cd: "sc = 100 - Math_round (toDouble (toDouble (of_nat d / of_nat (max a b)) * 100))"
    unfolding sc dabs by (rule refl)
  show "\<not> halfway a b \<Longrightarrow> sc = specScore a b"
  proof (cases "d = 0")
    case True
    then show ?thesis by (simp add: cd sp toDouble_zero)
  next
    case False
    assume "\<not> halfway a b"
    then have "\<not> 2 * max a b dvd 200 * d + max a b" by (simp add: hw)
    from Math_round_product(1) [OF _ dm m this] False show ?thesis by (simp add: cd sp)
  qed
  show "halfway a b \<Longrightarrow> sc = specScore a b \<or> sc = specScore a b + 1"
  proof (cases "d = 0")
    case True
    then show ?thesis by (simp add: cd sp toDouble_zero)
  next
    case False
    assume "halfway a b"
    then have "2 * max a b dvd 200 * d + max a b" by (simp add: hw)
    from Math_round_product(2) [OF _ dm m this] False show ?thesis by (auto simp: cd sp)
  qed
qed

text \<open>
  C7, as the code has it. For an old and a new block of an analysed instance, with
  \<open>lenOld\<close> and \<open>lenNew\<close> the character lengths of the tokens strictly between their boundary
  tags: the score is 0 when the types do not match, 100 when both inner contents are
  empty, and otherwise 100 minus \<open>Math.round\<close> of the double-precision product by 100 of
  the double-precision quotient \<open>|lenOld - lenNew| / max lenOld lenNew\<close>. For lengths up to
  \<open>2^43\<close> this is the exact \<open>100 - round (100 * |lenOld - lenNew| / max lenOld lenNew)\<close> whenever
  the exact value is not half-way between two integers; when it is, the score is that
  of the exact formula or one more.
\<close>

theorem scoreForMatch_rule:
  assumes "blockAnalyzer st = Some ba" and "i < length (oldBlocks st)" and "j < length (newBlocks st)"
    and "lenOld = length (joinWords (getBlockInnerWords (oldWords st) (oldBlocks st ! i)))"
    and "lenNew = length (joinWords (getBlockInnerWords (newWords st) (newBlocks st ! j)))"
    and "score = scoreForMatch st (innerLengths (oldWords st) (oldBlocks st))
                   (innerLengths (newWords st) (newBlocks st)) i j"
    and "same = isSameBlockType ba (Some (oldBlocks st ! i)) (Some (newBlocks st ! j))"
  shows "getBlockInnerWords (oldWords st) (oldBlocks st ! i) =
           take (endIndex (oldBlocks st ! i) - Suc (startIndex (oldBlocks st ! i)))
             (drop (Suc (startIndex (oldBlocks st ! i))) (oldWords st)) \<and>
         getBlockInnerWords (newWords st) (newBlocks st ! j) =
           take (endIndex (newBlocks st ! j) - Suc (startIndex (newBlocks st ! j)))
             (drop (Suc (startIndex (newBlocks st ! j))) (newWords st)) \<and>
         (\<not> same \<longrightarrow> score = 0) \<and>
         (same \<and> lenOld = 0 \<and> lenNew = 0 \<longrightarrow> score = 100) \<and>
         (same \<and> 0 < max lenOld lenNew \<longrightarrow>
            score = 100 - Math_round (toDouble (toDouble (of_int \<bar>int lenOld - int lenNew\<bar> /
                                                           of_nat (max lenOld lenNew)) * 100))) \<and>
         (same \<and> max lenOld lenNew \<le> 2 ^ 43 \<and> \<not> halfway lenOld lenNew \<longrightarrow> score = specScore lenOld lenNew) \<and>
         (same \<and> max lenOld lenNew \<le> 2 ^ 43 \<and> halfway lenOld lenNew \<longrightarrow>
            score = specScore lenOld lenNew \<or> score = specScore lenOld lenNew + 1)"
proof -
  note u = scoreForMatch_unfold [OF assms(1-3), folded assms(4,5,6,7)]
  have s0: "\<not> same \<Longrightarrow> score = 0" using u by (simp add: Let_def)
  have s100: "same \<Longrightarrow> max lenOld lenNew = 0 \<Longrightarrow> score = 100" using u by (simp add: Let_def)
  have sd: "same \<Longrightarrow> 0 < max lenOld lenNew \<Longrightarrow>
      score = 100 - Math_round (toDouble (toDouble (of_int \<bar>int lenOld - int lenNew\<bar> /
                                                           of_nat (max lenOld lenNew)) * 100))"
    using u by (auto simp: Let_def)
  have sp0: "max lenOld lenNew = 0 \<Longrightarrow> specScore lenOld lenNew = 100 \<and> \<not> halfway lenOld lenNew"
    by (simp add: specScore_def halfway_def Let_def)
  have a: "same \<Longrightarrow> max lenOld lenNew \<le> 2 ^ 43 \<Longrightarrow> \<not> halfway lenOld lenNew \<Longrightarrow> score = specScore lenOld lenNew"
  proof (cases "0 < max lenOld lenNew")
    case True
    assume "same" "max lenOld lenNew \<le> 2 ^ 43" "\<not> halfway lenOld lenNew"
    with doubleScore_spec(1) [OF _ True refl] sd True show ?thesis by simp
  next
    case False
    assume "same"
    with False s100 sp0 show ?thesis by simp
  qed
  have b: "same \<Longrightarrow> max lenOld lenNew \<le> 2 ^ 43 \<Longrightarrow> halfway lenOld lenNew \<Longrightarrow>
      score = specScore lenOld lenNew \<or> score = specScore lenOld lenNew + 1"
  proof (cases "0 < max lenOld lenNew")
    case True
    assume "same" "max lenOld lenNew \<le> 2 ^ 43" "halfway lenOld lenNew"
    with doubleScore_spec(2) [OF _ True refl] sd True show ?thesis by simp
  next
    case False
    assume "same"
    with False s100 sp0 show ?thesis by simp
  qed
  from s0 s100 sd a b show ?thesis
    by (simp add: getBlockInnerWords_between)
qed

definition roundedOld :: "string list" where
  "roundedOld = [''<p>'', ''aaaaaaaaaaaaaaaaaaaaaaaaaaaaaaaaaaaaaaaa'', ''</p>'']"

definition roundedNew :: "string list" where
  "roundedNew = [''<p>'', ''aaaaaaaaaaaaaaaaa'', ''</p>'']"



definition shortOld :: "string list" where
  "shortOld = [''<p>'', ''aaaa'', ''</p>'']"

definition shortNew :: "string list" where
  "shortNew = [''<p>'', ''aaa'', ''</p>'']"

lemma short_example:
  "0 < length (oldBlocks (analysedInstance shortOld shortNew))"
  "0 < length (newBlocks (analysedInstance shortOld shortNew))"
  "4 = length (joinWords (getBlockInnerWords (oldWords (analysedInstance shortOld shortNew))
                  (oldBlocks (analysedInstance shortOld shortNew) ! 0)))"
  "3 = length (joinWords (getBlockInnerWords (newWords (analysedInstance shortOld shortNew))
                  (newBlocks (analysedInstance shortOld shortNew) ! 0)))"
  "True = isSameBlockType (BlockAnalyzer_new (blockDiff blockOptions))
     (Some (oldBlocks (analysedInstance shortOld shortNew) ! 0))
     (Some (newBlocks (analysedInstance shortOld shortNew) ! 0))"
  by code_simp+

lemma short_example_spec: "\<not> halfway 4 3" "specScore 4 3 = 75"
  by code_simp+

lemma short_example_bound: "max (4::nat) 3 \<le> 2 ^ 43"
  by simp

text \<open>
  Inner lengths 40 and 17 give the exact value \<open>57.5\<close>; the double quotient \<open>23 / 40\<close> times
  100 is the double just below \<open>57.5\<close>, which rounds to 57, so the score is 43 where the
  formula gives 42, with halves rounded up and with halves rounded to even alike.
\<close>

theorem scoreForMatch_halfway_counterexample:
  "length (joinWords (getBlockInnerWords roundedOld (oldBlocks (analysedInstance roundedOld roundedNew) ! 0))) = 40 \<and>
   length (joinWords (getBlockInnerWords roundedNew (newBlocks (analysedInstance roundedOld roundedNew) ! 0))) = 17 \<and>
   isSameBlockType (BlockAnalyzer_new (blockDiff blockOptions))
     (Some (oldBlocks (analysedInstance roundedOld roundedNew) ! 0))
     (Some (newBlocks (analysedInstance roundedOld roundedNew) ! 0)) \<and>
   scoreForMatch (analysedInstance roundedOld roundedNew)
     (innerLengths roundedOld (oldBlocks (analysedInstance roundedOld roundedNew)))
     (innerLengths roundedNew (newBlocks (analysedInstance roundedOld roundedNew))) 0 0 = 43 \<and>
   100 * of_int \<bar>int 40 - int 17\<bar> / of_nat (max 40 17) = (115 / 2 :: rat) \<and>
   specScore 40 17 = 42 \<and>
   100 - roundHalfEven (100 * of_int \<bar>int 40 - int 17\<bar> / of_nat (max 40 17)) = 42"
proof (intro conjI)
  show "length (joinWords (getBlockInnerWords roundedOld (oldBlocks (analysedInstance roundedOld roundedNew) ! 0))) = 40"
    by code_simp
  show "length (joinWords (getBlockInnerWords roundedNew (newBlocks (analysedInstance roundedOld roundedNew) ! 0))) = 17"
    by code_simp
  show "isSameBlockType (BlockAnalyzer_new (blockDiff blockOptions))
     (Some (oldBlocks (analysedInstance roundedOld roundedNew) ! 0))
     (Some (newBlocks (analysedInstance roundedOld roundedNew) ! 0))"
    by code_simp
  show "scoreForMatch (analysedInstance roundedOld roundedNew)
     (innerLengths roundedOld (oldBlocks (analysedInstance roundedOld roundedNew)))
     (innerLengths roundedNew (newBlocks (analysedInstance roundedOld roundedNew))) 0 0 = 43"
    by code_simp
  show "100 * of_int \<bar>int 40 - int 17\<bar> / of_nat (max 40 17) = (115 / 2 :: rat)"
    by code_simp
  show "specScore 40 17 = 42"
    by code_simp
  show "100 - roundHalfEven (100 * of_int \<bar>int 40 - int 17\<bar> / of_nat (max 40 17)) = 42"
    by code_simp
qed

theorem scoreForMatch_rule_witness:
  "blockAnalyzer (analysedInstance shortOld shortNew) = Some (BlockAnalyzer_new (blockDiff blockOptions)) \<and>
   0 < length (oldBlocks (analysedInstance shortOld shortNew)) \<and>
   0 < length (newBlocks (analysedInstance shortOld shortNew)) \<and>
   \<not> halfway 4 3 \<and>
   scoreForMatch (analysedInstance shortOld shortNew)
     (innerLengths (oldWords (analysedInstance shortOld shortNew)) (oldBlocks (analysedInstance shortOld shortNew)))
     (innerLengths (newWords (analysedInstance shortOld shortNew)) (newBlocks (analysedInstance shortOld shortNew)))
     0 0 = 75"
proof -
  let ?st = "analysedInstance shortOld shortNew"
  have p1: "blockAnalyzer ?st = Some (BlockAnalyzer_new (blockDiff blockOptions))"
    by (rule analysedInstance_fields)
  from scoreForMatch_rule [OF p1 short_example(1) short_example(2) short_example(3) short_example(4) refl
      short_example(5)]
  have "True \<and> max (4::nat) 3 \<le> 2 ^ 43 \<and> \<not> halfway 4 3 \<longrightarrow>
      scoreForMatch ?st (innerLengths (oldWords ?st) (oldBlocks ?st))
        (innerLengths (newWords ?st) (newBlocks ?st)) 0 0 = specScore 4 3"
    by blast
  with short_example_spec short_example_bound
  have "scoreForMatch ?st (innerLengths (oldWords ?st) (oldBlocks ?st))
        (innerLengths (newWords ?st) (newBlocks ?st)) 0 0 = 75"
    by metis
  with p1 short_example(1,2) short_example_spec(1) show ?thesis by blast
qed


end
